theory Spec2Isabelle
  imports Main "HOL-Library.Word"
begin

section \<open>JavaScript strings\<close>

text \<open>
  A JavaScript string is a sequence of UTF-16 code units.  \<open>ascii\<close> embeds the
  ASCII literals of the source.
\<close>

type_synonym jschar = "16 word"
type_synonym jsstring = "jschar list"

definition ascii :: "string \<Rightarrow> jsstring" where
  "ascii s = map of_char s"

text \<open>
  The white space of \<open>String.prototype.trim\<close> and of the regular expression class
  \<open>\s\<close>: ECMAScript WhiteSpace and LineTerminator.
\<close>

definition is_space :: "jschar \<Rightarrow> bool" where
  "is_space c \<longleftrightarrow>
     c = 0x09 \<or> c = 0x0A \<or> c = 0x0B \<or> c = 0x0C \<or> c = 0x0D \<or> c = 0x20 \<or> c = 0xA0 \<or>
     c = 0x1680 \<or> (0x2000 \<le> c \<and> c \<le> 0x200A) \<or> c = 0x2028 \<or> c = 0x2029 \<or>
     c = 0x202F \<or> c = 0x205F \<or> c = 0x3000 \<or> c = 0xFEFF"

text \<open>The class \<open>\w\<close> = \<open>[A-Za-z0-9_]\<close>.\<close>

definition is_alnum :: "jschar \<Rightarrow> bool" where
  "is_alnum c \<longleftrightarrow>
     (0x41 \<le> c \<and> c \<le> 0x5A) \<or> (0x61 \<le> c \<and> c \<le> 0x7A) \<or> (0x30 \<le> c \<and> c \<le> 0x39)"

definition is_word :: "jschar \<Rightarrow> bool" where
  "is_word c \<longleftrightarrow> is_alnum c \<or> c = 0x5F"

definition trim :: "jsstring \<Rightarrow> jsstring" where
  "trim s = rev (dropWhile is_space (rev (dropWhile is_space s)))"

text \<open>Decimal rendering of a non-negative integer, as a template literal prints it.\<close>

definition digit :: "nat \<Rightarrow> jschar" where
  "digit d = of_nat (48 + d)"

fun decimal :: "nat \<Rightarrow> jsstring" where
  "decimal n = (if n < 10 then [digit n] else decimal (n div 10) @ [digit (n mod 10)])"

declare decimal.simps [simp del]

definition show_int :: "int \<Rightarrow> jsstring" where
  "show_int i = (if i < 0 then 0x2D # decimal (nat (- i)) else decimal (nat i))"

section \<open>The data model (src/types.ts)\<close>

text \<open>
  \<open>BookStructure = Record<string, string | Record<string, string>>\<close>.  An object is
  modelled by its entries in the order \<open>Object.entries\<close> enumerates them; a value is a
  string or an object again (the declared type stops at one level of objects; nothing
  below depends on the depth).

  The outline of a run is what \<open>JSON.parse\<close> made of the model's answer, and
  \<open>parseJsonFromText\<close> returns it as \<open>any\<close>: nothing checks it against the
  declared type.  So the type of values has the other values of JSON beside \<open>Leaf\<close>
  (a string) and \<open>Node\<close> (an object): arrays and the literals \<open>null\<close>,
  \<open>true\<close> and \<open>false\<close>.  Numbers are left out: a text with a number in it
  is outside this model.
\<close>

datatype outline =
    Leaf jsstring
  | Node "(jsstring \<times> outline) list"
  | JArray "outline list"
  | JNull
  | JBool bool

type_synonym BookStructure = "(jsstring \<times> outline) list"

text \<open>
  ECMAScript ToBoolean on these values: \<open>null\<close>, \<open>false\<close> and the empty string
  are falsy, every object and array is truthy.
\<close>

fun truthy :: "outline \<Rightarrow> bool" where
  "truthy (Leaf s) = (s \<noteq> [])"
| "truthy (Node kvs) = True"
| "truthy (JArray vs) = True"
| "truthy JNull = False"
| "truthy (JBool b) = b"

text \<open>
  \<open>Object.entries\<close>: the entries of an object; for an array its elements under
  their indices, for a string its code units under their indices; a boolean has no
  own property.  (On \<open>null\<close> it throws; every call of the source is guarded by a
  test of truthiness.)
\<close>

fun Object_entries :: "outline \<Rightarrow> BookStructure" where
  "Object_entries (Node kvs) = kvs"
| "Object_entries (JArray vs) = map (\<lambda>i. (decimal i, vs ! i)) [0..<length vs]"
| "Object_entries (Leaf s) = map (\<lambda>i. (decimal i, Leaf [s ! i])) [0..<length s]"
| "Object_entries JNull = []"
| "Object_entries (JBool b) = []"

datatype task_status = Pending | Generating | Done | Error

record ChapterTask =
  task_id :: jsstring
  title :: jsstring
  description :: jsstring
  path :: "jsstring list"
  status :: task_status
  content :: "jsstring option"
  errorMessage :: "jsstring option"

datatype AppStep =
  USER_INPUT | GENERATING_OUTLINE | OUTLINE_REVIEW | GENERATING_CHAPTERS | VIEW_BOOK

section \<open>JSON.stringify(value, null, 2) on outlines\<close>

text \<open>
  ECMAScript QuoteJSONString: the string is read code point by code point; a surrogate
  pair is copied, an unpaired surrogate and a control character are escaped.
\<close>

definition hex_digit :: "nat \<Rightarrow> jschar" where
  "hex_digit d = (if d < 10 then of_nat (48 + d) else of_nat (87 + d))"

definition UnicodeEscape :: "jschar \<Rightarrow> jsstring" where
  "UnicodeEscape c =
     [0x5C, 0x75, hex_digit (unat c div 4096), hex_digit (unat c div 256 mod 16),
      hex_digit (unat c div 16 mod 16), hex_digit (unat c mod 16)]"

definition is_lead :: "jschar \<Rightarrow> bool" where
  "is_lead c \<longleftrightarrow> 0xD800 \<le> c \<and> c \<le> 0xDBFF"

definition is_trail :: "jschar \<Rightarrow> bool" where
  "is_trail c \<longleftrightarrow> 0xDC00 \<le> c \<and> c \<le> 0xDFFF"

definition quote_unit :: "jschar \<Rightarrow> jsstring" where
  "quote_unit c =
     (if c = 0x08 then [0x5C, 0x62]
      else if c = 0x09 then [0x5C, 0x74]
      else if c = 0x0A then [0x5C, 0x6E]
      else if c = 0x0C then [0x5C, 0x66]
      else if c = 0x0D then [0x5C, 0x72]
      else if c = 0x22 then [0x5C, 0x22]
      else if c = 0x5C then [0x5C, 0x5C]
      else if c < 0x20 \<or> is_lead c \<or> is_trail c then UnicodeEscape c
      else [c])"

fun quote_units :: "jsstring \<Rightarrow> jsstring" where
  "quote_units [] = []"
| "quote_units [c] = quote_unit c"
| "quote_units (c # d # cs) =
     (if is_lead c \<and> is_trail d then c # d # quote_units cs
      else quote_unit c @ quote_units (d # cs))"

definition QuoteJSONString :: "jsstring \<Rightarrow> jsstring" where
  "QuoteJSONString s = 0x22 # quote_units s @ [0x22]"

fun join :: "jsstring \<Rightarrow> jsstring list \<Rightarrow> jsstring" where
  "join sep [] = []"
| "join sep [x] = x"
| "join sep (x # y # ys) = x @ sep @ join sep (y # ys)"

text \<open>
  ECMAScript SerializeJSONProperty / SerializeJSONObject / SerializeJSONArray with gap
  \<open>"  "\<close>; the first argument is the current indent.
\<close>

fun SerializeJSONProperty :: "jsstring \<Rightarrow> outline \<Rightarrow> jsstring" where
  "SerializeJSONProperty indent (Leaf s) = QuoteJSONString s"
| "SerializeJSONProperty indent (Node kvs) =
     (if kvs = [] then ascii ''{}''
      else
        [0x7B, 0x0A] @ (indent @ ascii ''  '') @
        join ([0x2C, 0x0A] @ (indent @ ascii ''  ''))
          (map (\<lambda>kv. QuoteJSONString (fst kv) @ ascii '': '' @
                       SerializeJSONProperty (indent @ ascii ''  '') (snd kv)) kvs) @
        [0x0A] @ indent @ [0x7D])"
| "SerializeJSONProperty indent (JArray vs) =
     (if vs = [] then ascii ''[]''
      else
        [0x5B, 0x0A] @ (indent @ ascii ''  '') @
        join ([0x2C, 0x0A] @ (indent @ ascii ''  ''))
          (map (SerializeJSONProperty (indent @ ascii ''  '')) vs) @
        [0x0A] @ indent @ [0x5D])"
| "SerializeJSONProperty indent JNull = ascii ''null''"
| "SerializeJSONProperty indent (JBool b) = (if b then ascii ''true'' else ascii ''false'')"

definition JSON_stringify :: "outline \<Rightarrow> jsstring" where
  "JSON_stringify v = SerializeJSONProperty [] v"

section \<open>The outline flattener (src/App.tsx, flattenStructureToTasks)\<close>

text \<open>\<open>key.replace(/\s+/g, '-')\<close>: every maximal run of white space becomes one hyphen.\<close>

function replace_spaces :: "jsstring \<Rightarrow> jsstring" where
  "replace_spaces [] = []"
| "replace_spaces (c # cs) =
     (if is_space c then 0x2D # replace_spaces (dropWhile is_space cs)
      else c # replace_spaces cs)"
  by pat_completeness auto
termination
  by (relation "measure length") (auto simp: length_dropWhile_le less_Suc_eq_le)

text \<open>\<open>.replace(/[^a-zA-Z0-9-]/g, '')\<close>\<close>

definition sanitize :: "jsstring \<Rightarrow> jsstring" where
  "sanitize key = filter (\<lambda>c. is_alnum c \<or> c = 0x2D) (replace_spaces key)"

text \<open>
  The identifier \<open>`${sanitizedKey || 'chapter'}-${Date.now()}-${order}`\<close>; \<open>t\<close> is the
  value \<open>Date.now()\<close> returns in this iteration.
\<close>

definition make_id :: "jsstring \<Rightarrow> int \<Rightarrow> nat \<Rightarrow> jsstring" where
  "make_id key t order =
     (if sanitize key = [] then ascii ''chapter'' else sanitize key) @
     [0x2D] @ show_int t @ [0x2D] @ decimal order"

definition make_task :: "int \<Rightarrow> nat \<Rightarrow> jsstring \<times> outline \<Rightarrow> ChapterTask" where
  "make_task t order entry =
     \<lparr> task_id = make_id (fst entry) t order,
       title = fst entry,
       description = (case snd entry of Leaf s \<Rightarrow> s | value \<Rightarrow> JSON_stringify value),
       path = [fst entry],
       status = Pending,
       content = Some [],
       errorMessage = None \<rparr>"

text \<open>
  The loop over \<open>Object.entries(structure)\<close>; \<open>now i\<close> is the reading of the clock in
  the iteration whose counter is \<open>i\<close>.
\<close>

fun flatten_loop ::
  "(nat \<Rightarrow> int) \<Rightarrow> nat \<Rightarrow> (jsstring \<times> outline) list \<Rightarrow> ChapterTask list \<Rightarrow> ChapterTask list" where
  "flatten_loop now order [] tasks = tasks"
| "flatten_loop now order (entry # entries) tasks =
     flatten_loop now (Suc order) entries (tasks @ [make_task (now order) order entry])"

definition flattenStructureToTasks :: "(nat \<Rightarrow> int) \<Rightarrow> BookStructure \<Rightarrow> ChapterTask list" where
  "flattenStructureToTasks now structure = flatten_loop now 0 structure []"

section \<open>The controller state (src/App.tsx)\<close>

text \<open>
  The state variables of the \<open>App\<close> component.  \<open>UserInputs\<close> is only tested for
  \<open>null\<close> and handed on to the model client, so it is a type parameter.
  \<open>bookStructure\<close> holds the value that \<open>parseJsonFromText\<close> returned.  The
  component tests it for truthiness before every use (lines 104, 112 and 125;
  \<open>structure &&\<close> and \<open>!structure\<close> in OutlineReviewPane) and reads it only when
  it is truthy, so \<open>None\<close> stands for \<open>null\<close> and for the other falsy values
  (\<open>false\<close>, the empty string), which the component does not tell apart;
  \<open>setBookStructure\<close> stores a truthy value as it is.
\<close>

record 'u AppState =
  currentStep :: AppStep
  userInputs :: "'u option"
  bookTitle :: "jsstring option"
  bookStructure :: "outline option"
  chapterTasks :: "ChapterTask list"
  error :: "jsstring option"
  isLoading :: bool
  isAutoGeneratingChapters :: bool
  activelyGeneratingChapterId :: "jsstring option"
  apiKeyMissing :: bool

definition setBookStructure :: "outline \<Rightarrow> 'u AppState \<Rightarrow> 'u AppState" where
  "setBookStructure v s = s\<lparr> bookStructure := (if truthy v then Some v else None) \<rparr>"

text \<open>A thrown value: an \<open>Error\<close> object with its message, or anything else.\<close>

datatype js_error = ErrorObj jsstring | OtherThrown

section \<open>Outline parsing (src/services/geminiService.ts, parseJsonFromText)\<close>

text \<open>
  The match of \<open>/^```(\w*)?\s*\n?(.*?)\n?\s*```$/s\<close> against the whole string, and
  its second group.  The expression matches exactly the strings that begin and end with
  three backticks (six characters at least), since \<open>(.*?)\<close> with the flag \<open>s\<close>
  takes any text.  The backtracking order gives the groups: \<open>(\w*)?\<close> and \<open>\s*\<close>
  are greedy and take the longest run of word characters and then of white space; after
  them \<open>\n?\<close> finds no line feed; the lazy \<open>(.*?)\<close> then stops at the first
  position from which only white space is left before the closing backticks, and this
  first attempt succeeds.
\<close>

definition backticks :: jsstring where
  "backticks = [0x60, 0x60, 0x60]"

definition fence_group2 :: "jsstring \<Rightarrow> jsstring option" where
  "fence_group2 s =
     (if 6 \<le> length s \<and> take 3 s = backticks \<and> drop (length s - 3) s = backticks then
        Some (rev (dropWhile is_space (rev
          (dropWhile is_space (dropWhile is_word (take (length s - 6) (drop 3 s)))))))
      else None)"

text \<open>The text handed to \<open>JSON.parse\<close>.\<close>

definition json_text :: "jsstring \<Rightarrow> jsstring" where
  "json_text text =
     (let jsonStr = trim text in
      case fence_group2 jsonStr of
        Some m2 \<Rightarrow> if m2 \<noteq> [] then trim m2 else jsonStr
      | None \<Rightarrow> jsonStr)"

definition invalid_json_message :: jsstring where
  "invalid_json_message =
     ascii ''Invalid JSON response from AI. The AI returned content that was not valid JSON.''"

text \<open>
  \<open>json_parse\<close> stands for the platform's \<open>JSON.parse\<close>, \<open>None\<close> when it
  throws; the function returns whatever value was parsed.
\<close>

definition parseJsonFromText :: "(jsstring \<Rightarrow> 'v option) \<Rightarrow> jsstring \<Rightarrow> js_error + 'v" where
  "parseJsonFromText json_parse text =
     (case json_parse (json_text text) of
        None \<Rightarrow> Inl (ErrorObj invalid_json_message)
      | Some v \<Rightarrow> Inr v)"

section \<open>Outline generation (src/App.tsx, handleUserInputSubmit)\<close>

text \<open>
  \<open>accumulatedStructure += chunk.text\<close>: a chunk without text appends the word
  \<open>undefined\<close>.
\<close>

definition append_chunk_text :: "jsstring \<Rightarrow> jsstring option \<Rightarrow> jsstring" where
  "append_chunk_text acc c = acc @ (case c of Some t \<Rightarrow> t | None \<Rightarrow> ascii ''undefined'')"

definition outline_error_message :: "js_error \<Rightarrow> jsstring" where
  "outline_error_message e =
     (case e of ErrorObj m \<Rightarrow> m | OtherThrown \<Rightarrow> ascii ''Failed to generate outline or title.'')"

definition outline_catch :: "js_error \<Rightarrow> 'u AppState \<Rightarrow> 'u AppState" where
  "outline_catch e s =
     s\<lparr> error := Some (outline_error_message e), currentStep := USER_INPUT, isLoading := False \<rparr>"

text \<open>
  The handler from its call to its end.  The outline stream is given by the chunks it
  delivers and the failure that ends it, if any; \<open>titleResult\<close> is the outcome of
  \<open>generateBookTitle\<close>.  Every setter of this handler is called with a value, so the
  state after the handler does not depend on when the component renders.
\<close>

definition handleUserInputSubmit ::
  "(jsstring \<Rightarrow> outline option) \<Rightarrow> 'u \<Rightarrow> jsstring option list \<times> js_error option \<Rightarrow>
   js_error + jsstring \<Rightarrow> 'u AppState \<Rightarrow> 'u AppState" where
  "handleUserInputSubmit json_parse inputs stream titleResult s =
     (if apiKeyMissing s then
        s\<lparr> error := Some (ascii ''Application is not configured correctly. API Key is missing.'') \<rparr>
      else
        let s1 = s\<lparr> userInputs := Some inputs, currentStep := GENERATING_OUTLINE,
                    isLoading := True, error := None, bookStructure := None,
                    bookTitle := None, chapterTasks := [] \<rparr>;
            accumulatedStructure = foldl append_chunk_text [] (fst stream)
        in case snd stream of
             Some e \<Rightarrow> outline_catch e s1
           | None \<Rightarrow>
               (case parseJsonFromText json_parse accumulatedStructure of
                  Inl e \<Rightarrow> outline_catch e s1
                | Inr structure \<Rightarrow>
                    (case titleResult of
                       Inl e \<Rightarrow> outline_catch e (setBookStructure structure s1)
                     | Inr t \<Rightarrow>
                         (setBookStructure structure s1)
                           \<lparr> bookTitle := Some t, currentStep := OUTLINE_REVIEW,
                             isLoading := False \<rparr>)))"

section \<open>State updates and rendering\<close>

text \<open>
  A call of a state setter does not change the state the running code sees.  React
  puts the new value, or the updater function, in a queue; when it next renders the
  component it computes the new state from the queue, calling the updaters in the
  order of the calls.  Updates are batched: the code of a handler between two
  \<open>await\<close>s runs to its end before any render.  An updater that mentions
  \<open>generatingChapterContentRef.current\<close> in its body (lines 156 and 166) therefore
  reads the cell when React calls it, not when the setter was called, whereas
  \<open>finalContent\<close> of line 160 is a value computed before the setter is called.
\<close>

datatype update =
    SetCurrentStep AppStep
  | SetChapterTasks "ChapterTask list"
  | SetError "jsstring option"
  | SetIsAutoGeneratingChapters bool
  | SetActivelyGeneratingChapterId "jsstring option"
  | UpdaterGenerating jsstring
  | UpdaterChunk jsstring
  | UpdaterDone jsstring jsstring
  | UpdaterError jsstring jsstring

definition map_task :: "jsstring \<Rightarrow> (ChapterTask \<Rightarrow> ChapterTask) \<Rightarrow> ChapterTask list \<Rightarrow> ChapterTask list" where
  "map_task taskId f prev = map (\<lambda>t. if task_id t = taskId then f t else t) prev"

text \<open>\<open>apply_update r u s\<close>: the state after \<open>u\<close>, run while the ref cell holds \<open>r\<close>.\<close>

fun apply_update :: "jsstring \<Rightarrow> update \<Rightarrow> 'u AppState \<Rightarrow> 'u AppState" where
  "apply_update r (SetCurrentStep x) s = s\<lparr> currentStep := x \<rparr>"
| "apply_update r (SetChapterTasks x) s = s\<lparr> chapterTasks := x \<rparr>"
| "apply_update r (SetError x) s = s\<lparr> error := x \<rparr>"
| "apply_update r (SetIsAutoGeneratingChapters x) s = s\<lparr> isAutoGeneratingChapters := x \<rparr>"
| "apply_update r (SetActivelyGeneratingChapterId x) s = s\<lparr> activelyGeneratingChapterId := x \<rparr>"
| "apply_update r (UpdaterGenerating taskId) s =
     s\<lparr> chapterTasks := map_task taskId
           (\<lambda>t. t\<lparr> status := Generating, errorMessage := None, content := Some [] \<rparr>)
           (chapterTasks s) \<rparr>"
| "apply_update r (UpdaterChunk taskId) s =
     s\<lparr> chapterTasks := map_task taskId (\<lambda>t. t\<lparr> content := Some r \<rparr>) (chapterTasks s) \<rparr>"
| "apply_update r (UpdaterDone taskId finalContent) s =
     s\<lparr> chapterTasks := map_task taskId
           (\<lambda>t. t\<lparr> status := Done, content := Some finalContent \<rparr>) (chapterTasks s) \<rparr>"
| "apply_update r (UpdaterError taskId msg) s =
     s\<lparr> chapterTasks := map_task taskId
           (\<lambda>t. t\<lparr> status := Error, errorMessage := Some msg,
                     content := Some (trim (if r = [] then [] else r)) \<rparr>)
           (chapterTasks s) \<rparr>"

definition flush :: "jsstring \<Rightarrow> update list \<Rightarrow> 'u AppState \<Rightarrow> 'u AppState" where
  "flush r q s = foldl (\<lambda>s u. apply_update r u s) s q"

text \<open>The arguments of \<open>generateChapterContentStream\<close> after the user inputs.\<close>

record request =
  chapterTitle :: jsstring
  chapterOutlineJson :: jsstring
  fullBookStructureJson :: jsstring
  previouslyGeneratedChaptersContent :: jsstring

text \<open>An invocation of \<open>handleGenerateChapterContent\<close> that waits for its stream.\<close>

record invocation =
  inv_taskId :: jsstring
  inv_title :: "jsstring option"
  inv_request :: request

text \<open>
  The component between two events: the state of the last render, the queued updates,
  the ref cell, and the invocation in flight.
\<close>

record 'u World =
  rendered :: "'u AppState"
  queue :: "update list"
  generatingChapterContentRef :: jsstring
  running :: "invocation option"

section \<open>The per-task routine (src/App.tsx, handleGenerateChapterContent)\<close>

fun findIndex :: "('a \<Rightarrow> bool) \<Rightarrow> 'a list \<Rightarrow> nat option" where
  "findIndex P [] = None"
| "findIndex P (x # xs) =
     (if P x then Some 0 else map_option Suc (findIndex P xs))"

text \<open>Lines 136 to 140.\<close>

definition chapter_block :: "ChapterTask \<Rightarrow> jsstring" where
  "chapter_block t =
     ascii ''Chapter: '' @ title t @ [0x0A] @
     (case content t of Some c \<Rightarrow> c | None \<Rightarrow> ascii ''undefined'') @
     [0x0A, 0x0A] @ ascii ''---END OF PREVIOUS CHAPTER---'' @ [0x0A, 0x0A]"

definition previouslyGeneratedContent :: "ChapterTask list \<Rightarrow> nat \<Rightarrow> jsstring" where
  "previouslyGeneratedContent tasks taskIndex =
     join []
       (map chapter_block
         (filter (\<lambda>t. status t = Done \<and> content t \<noteq> None \<and> content t \<noteq> Some [])
           (take taskIndex tasks)))"

text \<open>
  The routine up to its first \<open>await\<close>; the state it reads is the one of the render
  that created the callback.
\<close>

definition handleGenerateChapterContent :: "jsstring \<Rightarrow> 'u World \<Rightarrow> 'u World" where
  "handleGenerateChapterContent taskId w =
     (let s = rendered w in
      if userInputs s = None \<or> bookStructure s = None \<or> \<not> isAutoGeneratingChapters s \<or>
         apiKeyMissing s then w
      else
        case findIndex (\<lambda>t. task_id t = taskId) (chapterTasks s) of
          None \<Rightarrow> w
        | Some taskIndex \<Rightarrow>
            if status (chapterTasks s ! taskIndex) \<noteq> Pending then w
            else
              let taskToGenerate = chapterTasks s ! taskIndex in
              w\<lparr> queue := queue w @ [SetActivelyGeneratingChapterId (Some taskId),
                                      UpdaterGenerating taskId],
                 generatingChapterContentRef := [],
                 running := Some
                   \<lparr> inv_taskId = taskId,
                     inv_title = map_option title (find (\<lambda>t. task_id t = taskId) (chapterTasks s)),
                     inv_request =
                       \<lparr> chapterTitle = title taskToGenerate,
                         chapterOutlineJson = description taskToGenerate,
                         fullBookStructureJson =
                           JSON_stringify (case bookStructure s of Some b \<Rightarrow> b | None \<Rightarrow> JNull),
                         previouslyGeneratedChaptersContent =
                           previouslyGeneratedContent (chapterTasks s) taskIndex \<rparr> \<rparr> \<rparr>)"

text \<open>One turn of the loop \<open>for await (const chunk of stream)\<close>.\<close>

definition on_chunk :: "jsstring option \<Rightarrow> invocation \<Rightarrow> 'u World \<Rightarrow> 'u World" where
  "on_chunk textChunk i w =
     (case textChunk of
        None \<Rightarrow> w
      | Some t \<Rightarrow>
          w\<lparr> generatingChapterContentRef := generatingChapterContentRef w @ t,
             queue := queue w @ [UpdaterChunk (inv_taskId i)] \<rparr>)"

text \<open>The end of the stream: lines 160 and 161, then the \<open>finally\<close> block.\<close>

definition on_end :: "invocation \<Rightarrow> 'u World \<Rightarrow> 'u World" where
  "on_end i w =
     (let finalContent =
            trim (if generatingChapterContentRef w = [] then [] else generatingChapterContentRef w)
      in w\<lparr> queue := queue w @ [UpdaterDone (inv_taskId i) finalContent,
                                  SetActivelyGeneratingChapterId None],
             generatingChapterContentRef := [],
             running := None \<rparr>)"

text \<open>A failure of the request or of the stream: the \<open>catch\<close> block, then \<open>finally\<close>.\<close>

definition chapter_error_message :: "js_error \<Rightarrow> jsstring" where
  "chapter_error_message e =
     (case e of ErrorObj m \<Rightarrow> m | OtherThrown \<Rightarrow> ascii ''Failed to generate chapter content.'')"

definition on_failure :: "js_error \<Rightarrow> invocation \<Rightarrow> 'u World \<Rightarrow> 'u World" where
  "on_failure e i w =
     (let errorMessage = chapter_error_message e in
      w\<lparr> queue := queue w @
           [UpdaterError (inv_taskId i) errorMessage,
            SetError (Some (ascii ''Error in chapter: '' @
              (case inv_title i of
                 None \<Rightarrow> ascii ''Unknown''
               | Some t \<Rightarrow> if t = [] then ascii ''Unknown'' else t) @
              ascii ''. '' @ errorMessage)),
            SetIsAutoGeneratingChapters False,
            SetActivelyGeneratingChapterId None],
         generatingChapterContentRef := [],
         running := None \<rparr>)"

section \<open>Effects and event handlers (src/App.tsx)\<close>

text \<open>The effect of lines 103 to 109; \<open>now\<close> is the clock during the effect.\<close>

definition reflatten_effect :: "(nat \<Rightarrow> int) \<Rightarrow> 'u World \<Rightarrow> 'u World" where
  "reflatten_effect now w =
     (let s = rendered w in
      case bookStructure s of
        None \<Rightarrow> w
      | Some b \<Rightarrow>
          if currentStep s = OUTLINE_REVIEW \<or> currentStep s = GENERATING_CHAPTERS then
            if length (chapterTasks s) = 0 \<or>
               (currentStep s = OUTLINE_REVIEW \<and> list_all (\<lambda>t. status t = Pending) (chapterTasks s))
            then w\<lparr> queue := queue w @
                   [SetChapterTasks (flattenStructureToTasks now (Object_entries b))] \<rparr>
            else w
          else w)"

text \<open>The effect of lines 175 to 184.\<close>

definition auto_advance_effect :: "'u World \<Rightarrow> 'u World" where
  "auto_advance_effect w =
     (let s = rendered w in
      if currentStep s = GENERATING_CHAPTERS \<and> isAutoGeneratingChapters s \<and>
         activelyGeneratingChapterId s = None \<and> \<not> apiKeyMissing s then
        case find (\<lambda>task. status task = Pending) (chapterTasks s) of
          Some nextTask \<Rightarrow> handleGenerateChapterContent (task_id nextTask) w
        | None \<Rightarrow> w\<lparr> queue := queue w @ [SetIsAutoGeneratingChapters False] \<rparr>
      else w)"

text \<open>
  A render: React runs the queued updates and then the effects, in the order of their
  declaration.  Without a queued update the component is not rendered again.  React
  skips an effect none of whose dependencies has changed; the model runs both effects
  after every render, which comes to the same: an effect that has queued something has
  thereby changed one of its own dependencies, and one that has queued nothing queues
  nothing again.
\<close>

definition render :: "(nat \<Rightarrow> int) \<Rightarrow> 'u World \<Rightarrow> 'u World" where
  "render now w =
     (if queue w = [] then w
      else auto_advance_effect (reflatten_effect now
             (w\<lparr> rendered := flush (generatingChapterContentRef w) (queue w) (rendered w),
                 queue := [] \<rparr>)))"

definition handleProceedToChapterGeneration :: "(nat \<Rightarrow> int) \<Rightarrow> 'u World \<Rightarrow> 'u World" where
  "handleProceedToChapterGeneration now w =
     (case bookStructure (rendered w) of
        None \<Rightarrow> w
      | Some b \<Rightarrow>
          w\<lparr> queue := queue w @
               [SetChapterTasks (flattenStructureToTasks now (Object_entries b)),
                SetCurrentStep GENERATING_CHAPTERS, SetError None] \<rparr>)"

definition startAutomaticChapterGeneration :: "'u World \<Rightarrow> 'u World" where
  "startAutomaticChapterGeneration w =
     w\<lparr> queue := queue w @ [SetIsAutoGeneratingChapters True, SetError None] \<rparr>"

text \<open>\<open>onGoBack\<close> of the chapter pane (line 212).\<close>

definition goBackToOutline :: "'u World \<Rightarrow> 'u World" where
  "goBackToOutline w = w\<lparr> queue := queue w @ [SetCurrentStep OUTLINE_REVIEW] \<rparr>"

section \<open>Runs\<close>

text \<open>
  What can happen to the component during chapter generation: a render, the next chunk
  of the open stream, its end, its failure, and the three buttons.  A stream event
  without an invocation in flight, and a button that is not on the screen or disabled,
  change nothing.  The buttons \<open>Start\<close> and \<open>Back to Outline\<close> are those of
  ChapterGenerationPane.  The button \<open>Proceed to Write Chapters\<close> is the one of
  OutlineReviewPane (the second component of src/components/UserInputPane.tsx): the
  pane shows a loading indicator in place of its buttons while \<open>isLoading\<close>, and
  the button has \<open>disabled={!title || !structure}\<close>, where an empty title is falsy.
\<close>

datatype event =
    Render "nat \<Rightarrow> int"
  | Chunk "jsstring option"
  | StreamEnd
  | StreamFail js_error
  | StartAutomatic
  | GoBack
  | Proceed "nat \<Rightarrow> int"

definition allTasksProcessed :: "ChapterTask list \<Rightarrow> bool" where
  "allTasksProcessed tasks = list_all (\<lambda>task. status task = Done \<or> status task = Error) tasks"

fun step :: "event \<Rightarrow> 'u World \<Rightarrow> 'u World" where
  "step (Render now) w = render now w"
| "step (Chunk c) w = (case running w of None \<Rightarrow> w | Some i \<Rightarrow> on_chunk c i w)"
| "step StreamEnd w = (case running w of None \<Rightarrow> w | Some i \<Rightarrow> on_end i w)"
| "step (StreamFail e) w = (case running w of None \<Rightarrow> w | Some i \<Rightarrow> on_failure e i w)"
| "step StartAutomatic w =
     (let s = rendered w in
      if currentStep s = GENERATING_CHAPTERS \<and> chapterTasks s \<noteq> [] \<and>
         \<not> isAutoGeneratingChapters s \<and> \<not> allTasksProcessed (chapterTasks s)
      then startAutomaticChapterGeneration w else w)"
| "step GoBack w =
     (let s = rendered w in
      if currentStep s = GENERATING_CHAPTERS \<and>
         (chapterTasks s = [] \<or>
          \<not> (isAutoGeneratingChapters s \<and> activelyGeneratingChapterId s \<noteq> None))
      then goBackToOutline w else w)"
| "step (Proceed now) w =
     (let s = rendered w in
      if currentStep s = OUTLINE_REVIEW \<and> \<not> isLoading s \<and>
         bookTitle s \<noteq> None \<and> bookTitle s \<noteq> Some [] \<and> bookStructure s \<noteq> None
      then handleProceedToChapterGeneration now w else w)"

definition run :: "event list \<Rightarrow> 'u World \<Rightarrow> 'u World" where
  "run es w = foldl (\<lambda>w e. step e w) w es"

section \<open>Concrete inputs\<close>

definition demo_task :: "string \<Rightarrow> string \<Rightarrow> task_status \<Rightarrow> string \<Rightarrow> ChapterTask" where
  "demo_task i t st c =
     \<lparr> task_id = ascii i, title = ascii t, description = ascii ''outline'', path = [ascii t],
       status = st, content = Some (ascii c), errorMessage = None \<rparr>"

definition demo_state :: "ChapterTask list \<Rightarrow> bool \<Rightarrow> unit AppState" where
  "demo_state tasks auto =
     \<lparr> currentStep = GENERATING_CHAPTERS, userInputs = Some (), bookTitle = Some (ascii ''T''),
       bookStructure =
         Some (Node [(ascii ''Ch1'', Leaf (ascii ''desc1'')), (ascii ''Ch2'', Leaf (ascii ''desc2''))]),
       chapterTasks = tasks, error = None, isLoading = False,
       isAutoGeneratingChapters = auto, activelyGeneratingChapterId = None,
       apiKeyMissing = False \<rparr>"

definition demo_world :: "ChapterTask list \<Rightarrow> bool \<Rightarrow> unit World" where
  "demo_world tasks auto =
     \<lparr> rendered = demo_state tasks auto, queue = [], generatingChapterContentRef = [],
       running = None \<rparr>"

text \<open>The state of the component when it is mounted (lines 13 to 22), with an API key.\<close>

definition initial_state :: "unit AppState" where
  "initial_state =
     \<lparr> currentStep = USER_INPUT, userInputs = None, bookTitle = None, bookStructure = None,
       chapterTasks = [], error = None, isLoading = False, isAutoGeneratingChapters = False,
       activelyGeneratingChapterId = None, apiKeyMissing = False \<rparr>"

text \<open>
  The component on the outline review pane, when \<open>handleUserInputSubmit\<close> has
  received the outline \<open>{"Ch1": "desc1", "Ch2": "desc2"}\<close> and the title \<open>T\<close>:
  the state the handler leaves, rendered, and the effects of that render.
\<close>

definition review_world :: "unit World" where
  "review_world =
     auto_advance_effect (reflatten_effect (\<lambda>_. 11)
       \<lparr> rendered = (demo_state [] False)\<lparr> currentStep := OUTLINE_REVIEW \<rparr>, queue = [],
         generatingChapterContentRef = [], running = None \<rparr>)"

text \<open>
  A first run of the chapters from there: the pane is rendered with the tasks of the
  effect; the user proceeds and starts the automatic generation; the stream of the
  first chapter delivers \<open>Hello \<close> and \<open>world\<close> and ends; the stream of the second
  chapter ends at once (\<open>finished_run\<close>), or fails at once (\<open>halted_run\<close>).
\<close>

definition first_chapter_run :: "event list" where
  "first_chapter_run =
     [Render (\<lambda>_. 12), Proceed (\<lambda>_. 17), Render (\<lambda>_. 18), StartAutomatic, Render (\<lambda>_. 19),
      Chunk (Some (ascii ''Hello '')), Render (\<lambda>_. 19), Chunk (Some (ascii ''world'')),
      StreamEnd, Render (\<lambda>_. 19)]"

definition halted_run :: "event list" where
  "halted_run = first_chapter_run @ [StreamFail OtherThrown, Render (\<lambda>_. 19)]"

definition finished_run :: "event list" where
  "finished_run = first_chapter_run @ [StreamEnd, Render (\<lambda>_. 19), Render (\<lambda>_. 19)]"

text \<open>The round trip: back to the outline review, and forward again.\<close>

definition back_and_forth :: "event list" where
  "back_and_forth = [GoBack, Render (\<lambda>_. 30), Proceed (\<lambda>_. 40), Render (\<lambda>_. 41)]"

text \<open>The texts \<open>["Ch1"]\<close> and \<open>{"Ch1": "desc1", "Ch2": "desc2"}\<close> of an answer.\<close>

definition array_answer :: jsstring where
  "array_answer = [0x5B, 0x22] @ ascii ''Ch1'' @ [0x22, 0x5D]"

definition outline_answer :: jsstring where
  "outline_answer =
     [0x7B, 0x22] @ ascii ''Ch1'' @ [0x22] @ ascii '': '' @ [0x22] @ ascii ''desc1'' @ [0x22, 0x2C, 0x20, 0x22] @
     ascii ''Ch2'' @ [0x22] @ ascii '': '' @ [0x22] @ ascii ''desc2'' @ [0x22, 0x7D]"

section \<open>Vocabulary for runs\<close>



text \<open>
  The task at position \<open>k\<close>, with identifier \<open>tid\<close>, is the one being generated in
  state \<open>s\<close>.
\<close>

definition generating_at :: "nat \<Rightarrow> jsstring \<Rightarrow> 'u AppState \<Rightarrow> bool" where
  "generating_at k tid s \<longleftrightarrow>
     currentStep s = GENERATING_CHAPTERS \<and> activelyGeneratingChapterId s = Some tid \<and>
     k < length (chapterTasks s) \<and> task_id (chapterTasks s ! k) = tid \<and>
     status (chapterTasks s ! k) = Generating"

text \<open>
  The invocation for \<open>tid\<close> waits for its stream, has received \<open>acc\<close>, and a render
  now would show the task generating with content \<open>acc\<close>.
\<close>

definition streaming :: "nat \<Rightarrow> jsstring \<Rightarrow> jsstring \<Rightarrow> 'u World \<Rightarrow> bool" where
  "streaming k tid acc w \<longleftrightarrow>
     generatingChapterContentRef w = acc \<and>
     (\<exists>i. running w = Some i \<and> inv_taskId i = tid) \<and>
     (\<forall>r. generating_at k tid (flush r (queue w) (rendered w))) \<and>
     content (chapterTasks (flush acc (queue w) (rendered w)) ! k) = Some acc"

section \<open>Invariants of a driver run\<close>











section \<open>JSON.parse\<close>

text \<open>
  The JSON grammar of ECMA-404, which \<open>JSON.parse\<close> implements, for the texts built
  from objects, arrays, strings and the three literals.  A text with a number in it is
  outside the model: \<open>JSON_parse\<close> gives \<open>None\<close> for it, which says nothing of
  \<open>JSON.parse\<close> there.  An object is built member by member with
  \<open>CreateDataProperty\<close>: a repeated name replaces the earlier value, and the
  properties are kept in the order of the text.  (JavaScript enumerates the names that
  are array indices first, in ascending order; for an object with such names the order
  of \<open>Object.entries\<close> is not the one of the text.)  The parser descends along the
  nesting of the text; \<open>JSON_parse\<close> gives it the length of the text as the bound of
  the descent.
\<close>

definition is_json_ws :: "jschar \<Rightarrow> bool" where
  "is_json_ws c \<longleftrightarrow> c = 0x20 \<or> c = 0x09 \<or> c = 0x0A \<or> c = 0x0D"

definition skip_ws :: "jsstring \<Rightarrow> jsstring" where
  "skip_ws s = dropWhile is_json_ws s"

definition hex_val :: "jschar \<Rightarrow> nat option" where
  "hex_val c =
     (if 0x30 \<le> c \<and> c \<le> 0x39 then Some (unat c - 48)
      else if 0x61 \<le> c \<and> c \<le> 0x66 then Some (unat c - 87)
      else if 0x41 \<le> c \<and> c \<le> 0x46 then Some (unat c - 55)
      else None)"

definition unescape :: "jschar \<Rightarrow> jschar option" where
  "unescape e =
     (if e = 0x22 then Some 0x22
      else if e = 0x5C then Some 0x5C
      else if e = 0x2F then Some 0x2F
      else if e = 0x62 then Some 0x08
      else if e = 0x66 then Some 0x0C
      else if e = 0x6E then Some 0x0A
      else if e = 0x72 then Some 0x0D
      else if e = 0x74 then Some 0x09
      else None)"

definition unicode_unit :: "jschar \<Rightarrow> jschar \<Rightarrow> jschar \<Rightarrow> jschar \<Rightarrow> jschar option" where
  "unicode_unit a b c d =
     (case (hex_val a, hex_val b, hex_val c, hex_val d) of
        (Some x, Some y, Some z, Some u) \<Rightarrow> Some (of_nat (4096 * x + 256 * y + 16 * z + u))
      | _ \<Rightarrow> None)"

text \<open>The characters of a string after its opening quote, and the text after the closing one.\<close>

function parse_chars :: "jsstring \<Rightarrow> (jsstring \<times> jsstring) option" where
  "parse_chars [] = None"
| "parse_chars (c # cs) =
     (if c = 0x22 then Some ([], cs)
      else if c = 0x5C then
        (case cs of
           [] \<Rightarrow> None
         | e # es \<Rightarrow>
             if e = 0x75 then
               (case es of
                  a # b # c' # d # rest \<Rightarrow>
                    (case unicode_unit a b c' d of
                       None \<Rightarrow> None
                     | Some x \<Rightarrow> map_option (\<lambda>p. (x # fst p, snd p)) (parse_chars rest))
                | _ \<Rightarrow> None)
             else
               (case unescape e of
                  None \<Rightarrow> None
                | Some x \<Rightarrow> map_option (\<lambda>p. (x # fst p, snd p)) (parse_chars es)))
      else if c < 0x20 then None
      else map_option (\<lambda>p. (c # fst p, snd p)) (parse_chars cs))"
  by pat_completeness auto
termination
  by (relation "measure length") auto

fun put_property :: "jsstring \<Rightarrow> outline \<Rightarrow> (jsstring \<times> outline) list \<Rightarrow> (jsstring \<times> outline) list" where
  "put_property k v [] = [(k, v)]"
| "put_property k v (kv # kvs) =
     (if fst kv = k then (k, v) # kvs else kv # put_property k v kvs)"

fun parse_value :: "nat \<Rightarrow> jsstring \<Rightarrow> (outline \<times> jsstring) option"
  and parse_members :: "nat \<Rightarrow> (jsstring \<times> outline) list \<Rightarrow> jsstring \<Rightarrow> (outline \<times> jsstring) option"
  and parse_elements :: "nat \<Rightarrow> outline list \<Rightarrow> jsstring \<Rightarrow> (outline \<times> jsstring) option" where
  "parse_value 0 s = None"
| "parse_value (Suc n) s =
     (case skip_ws s of
        [] \<Rightarrow> None
      | c # cs \<Rightarrow>
          if c = 0x22 then map_option (\<lambda>p. (Leaf (fst p), snd p)) (parse_chars cs)
          else if c = 0x7B then
            (case skip_ws cs of
               [] \<Rightarrow> None
             | d # ds \<Rightarrow> if d = 0x7D then Some (Node [], ds) else parse_members n [] (d # ds))
          else if c = 0x5B then
            (case skip_ws cs of
               [] \<Rightarrow> None
             | d # ds \<Rightarrow> if d = 0x5D then Some (JArray [], ds) else parse_elements n [] (d # ds))
          else if c = 0x6E then
            (if take 3 cs = [0x75, 0x6C, 0x6C] then Some (JNull, drop 3 cs) else None)
          else if c = 0x74 then
            (if take 3 cs = [0x72, 0x75, 0x65] then Some (JBool True, drop 3 cs) else None)
          else if c = 0x66 then
            (if take 4 cs = [0x61, 0x6C, 0x73, 0x65] then Some (JBool False, drop 4 cs) else None)
          else None)"
| "parse_members 0 acc s = None"
| "parse_members (Suc n) acc s =
     (case skip_ws s of
        [] \<Rightarrow> None
      | c # cs \<Rightarrow>
          if c = 0x22 then
            (case parse_chars cs of
               None \<Rightarrow> None
             | Some (k, r1) \<Rightarrow>
                 (case skip_ws r1 of
                    [] \<Rightarrow> None
                  | c2 # r2 \<Rightarrow>
                      if c2 = 0x3A then
                        (case parse_value n r2 of
                           None \<Rightarrow> None
                         | Some (v, r3) \<Rightarrow>
                             (case skip_ws r3 of
                                [] \<Rightarrow> None
                              | c3 # r4 \<Rightarrow>
                                  if c3 = 0x2C then parse_members n (put_property k v acc) r4
                                  else if c3 = 0x7D then Some (Node (put_property k v acc), r4)
                                  else None))
                      else None))
          else None)"
| "parse_elements 0 acc s = None"
| "parse_elements (Suc n) acc s =
     (case parse_value n s of
        None \<Rightarrow> None
      | Some (v, r1) \<Rightarrow>
          (case skip_ws r1 of
             [] \<Rightarrow> None
           | c # r2 \<Rightarrow>
               if c = 0x2C then parse_elements n (acc @ [v]) r2
               else if c = 0x5D then Some (JArray (acc @ [v]), r2)
               else None))"

definition JSON_parse :: "jsstring \<Rightarrow> outline option" where
  "JSON_parse s =
     (case parse_value (length s) s of
        None \<Rightarrow> None
      | Some (v, rest) \<Rightarrow> if skip_ws rest = [] then Some v else None)"

text \<open>An object has no two properties of the same name.\<close>

fun wf_outline :: "outline \<Rightarrow> bool" where
  "wf_outline (Leaf s) = True"
| "wf_outline (Node kvs) = (distinct (map fst kvs) \<and> list_all (\<lambda>kv. wf_outline (snd kv)) kvs)"
| "wf_outline (JArray vs) = list_all wf_outline vs"
| "wf_outline JNull = True"
| "wf_outline (JBool b) = True"

text \<open>
  The outline of the specification (section 3): a tree whose root is an internal node,
  a mapping from names to strings or internal nodes.
\<close>

fun structured_outline :: "outline \<Rightarrow> bool" where
  "structured_outline (Node kvs) =
     list_all (\<lambda>kv. (case snd kv of Leaf s \<Rightarrow> True | _ \<Rightarrow> False) \<or> structured_outline (snd kv)) kvs"
| "structured_outline v = False"

text \<open>A bound on the descent of the parser into a value.\<close>

fun weight :: "outline \<Rightarrow> nat" where
  "weight (Leaf s) = 1"
| "weight (Node kvs) = Suc (sum_list (map (\<lambda>kv. Suc (weight (snd kv))) kvs))"
| "weight (JArray vs) = Suc (sum_list (map (\<lambda>v. Suc (weight v)) vs))"
| "weight JNull = 1"
| "weight (JBool b) = 1"

section \<open>Properties of the flattener\<close>

lemma flatten_loop_eq:
  "flatten_loop now k es acc =
     acc @ map (\<lambda>p. make_task (now (fst p)) (fst p) (snd p)) (zip [k..<k + length es] es)"
proof (induction es arbitrary: k acc)
  case Nil
  then show ?case by simp
next
  case (Cons e es)
  have "k < k + length (e # es)" by simp
  then have "[k..<k + length (e # es)] = k # [Suc k..<k + length (e # es)]"
    by (rule upt_conv_Cons)
  then have "[k..<k + length (e # es)] = k # [Suc k..<Suc k + length es]"
    by simp
  then show ?case using Cons.IH [of "Suc k" "acc @ [make_task (now k) k e]"] by simp
qed

lemma digit_not_hyphen: "d < 10 \<Longrightarrow> digit d \<noteq> 0x2D"
proof -
  assume "d < 10"
  then have "d \<in> {0,1,2,3,4,5,6,7,8,9}" by auto
  then show ?thesis by (auto simp: digit_def)
qed

lemma digit_inj: "a < 10 \<Longrightarrow> b < 10 \<Longrightarrow> digit a = digit b \<Longrightarrow> a = b"
proof -
  assume a: "a < 10" and b: "b < 10" and e: "digit a = digit b"
  have "unat (digit a) = (48 + a) mod 2 ^ LENGTH(16)"
    unfolding digit_def by (rule unat_of_nat)
  then have A: "unat (digit a) = 48 + a" using a by simp
  have "unat (digit b) = (48 + b) mod 2 ^ LENGTH(16)"
    unfolding digit_def by (rule unat_of_nat)
  then have B: "unat (digit b) = 48 + b" using b by simp
  from e have "unat (digit a) = unat (digit b)" by (rule arg_cong)
  then have "48 + a = 48 + b" unfolding A B .
  then show ?thesis by (simp only: add_left_cancel)
qed

lemma decimal_no_hyphen: "0x2D \<notin> set (decimal n)"
proof (induction n rule: decimal.induct)
  case (1 n)
  show ?case
  proof (cases "n < 10")
    case True
    then show ?thesis using digit_not_hyphen [of n] by (subst decimal.simps) auto
  next
    case False
    have "n mod 10 < 10" by simp
    then have "digit (n mod 10) \<noteq> 0x2D" by (rule digit_not_hyphen)
    then show ?thesis using 1 False by (subst decimal.simps) auto
  qed
qed

lemma decimal_nonempty: "decimal n \<noteq> []"
  by (subst decimal.simps) simp

lemma decimal_inj: "decimal a = decimal b \<Longrightarrow> a = b"
proof (induction a arbitrary: b rule: decimal.induct)
  case (1 n)
  show ?case
  proof (cases "n < 10")
    case True
    note n = this
    show ?thesis
    proof (cases "b < 10")
      case True
      then show ?thesis using n 1(2) digit_inj [of n b]
        by (simp add: decimal.simps [of n] decimal.simps [of b])
    next
      case False
      then show ?thesis using n 1(2) decimal_nonempty [of "b div 10"]
        by (simp add: decimal.simps [of n] decimal.simps [of b])
    qed
  next
    case False
    note n = this
    show ?thesis
    proof (cases "b < 10")
      case True
      then show ?thesis using n 1(2) decimal_nonempty [of "n div 10"]
        by (simp add: decimal.simps [of n] decimal.simps [of b])
    next
      case False
      have "decimal (n div 10) = decimal (b div 10) \<and> digit (n mod 10) = digit (b mod 10)"
        using n False 1(2) by (simp add: decimal.simps [of n] decimal.simps [of b])
      then have "n div 10 = b div 10" and "n mod 10 = b mod 10"
        using 1(1) [OF n] digit_inj [of "n mod 10" "b mod 10"] by auto
      then show ?thesis by (metis div_mult_mod_eq)
    qed
  qed
qed

lemma suffix_after_last:
  assumes "a @ h # x = b @ h # y" and "h \<notin> set x" and "h \<notin> set y"
  shows "x = y"
proof -
  have "takeWhile (\<lambda>c. c \<noteq> h) (rev (a @ h # x)) = rev x"
    using assms(2) by (auto simp: takeWhile_tail)
  moreover have "takeWhile (\<lambda>c. c \<noteq> h) (rev (b @ h # y)) = rev y"
    using assms(3) by (auto simp: takeWhile_tail)
  ultimately show ?thesis using assms(1) by simp
qed

lemma make_id_inj: "make_id k1 t1 i = make_id k2 t2 j \<Longrightarrow> i = j"
proof -
  assume e: "make_id k1 t1 i = make_id k2 t2 j"
  let ?p = "\<lambda>k t. (if sanitize k = [] then ascii ''chapter'' else sanitize k) @ [0x2D] @ show_int t"
  have "?p k1 t1 @ 0x2D # decimal i = ?p k2 t2 @ 0x2D # decimal j"
    using e by (simp add: make_id_def)
  then have "decimal i = decimal j"
    by (rule suffix_after_last) (rule decimal_no_hyphen)+
  then show ?thesis by (rule decimal_inj)
qed

lemma distinct_ids:
  "distinct (map task_id (flatten_loop now 0 es []))"
proof -
  have "map task_id (flatten_loop now 0 es []) =
        map (\<lambda>p. make_id (fst (snd p)) (now (fst p)) (fst p)) (zip [0..<length es] es)"
    by (simp add: flatten_loop_eq make_task_def)
  moreover have "distinct (map (\<lambda>p. make_id (fst (snd p)) (now (fst p)) (fst p)) (zip [0..<length es] es))"
  proof (rule distinct_map [THEN iffD2], intro conjI)
    show "distinct (zip [0..<length es] es)" by (simp add: distinct_zipI1)
    show "inj_on (\<lambda>p. make_id (fst (snd p)) (now (fst p)) (fst p)) (set (zip [0..<length es] es))"
    proof (rule inj_onI)
      fix p q assume p: "p \<in> set (zip [0..<length es] es)" and q: "q \<in> set (zip [0..<length es] es)"
        and e: "make_id (fst (snd p)) (now (fst p)) (fst p) = make_id (fst (snd q)) (now (fst q)) (fst q)"
      from e have f: "fst p = fst q" by (rule make_id_inj)
      from p obtain i where i: "i < length es" "p = (i, es ! i)"
        by (auto simp: set_zip)
      from q obtain j where j: "j < length es" "q = (j, es ! j)"
        by (auto simp: set_zip)
      from f i j show "p = q" by simp
    qed
  qed
  ultimately show ?thesis by simp
qed

lemma map_snd_zip_upt: "map (\<lambda>p. f (snd p)) (zip [0..<length xs] xs) = map f xs"
  by (rule nth_equalityI) simp_all

text \<open>
  C2.  Flattening an outline of \<open>N\<close> top-level entries gives \<open>N\<close> tasks, the task at
  position \<open>i\<close> made from the \<open>i\<close>-th entry (its title is the entry's name, its
  identifier ends with the counter \<open>i\<close>), all of them pending, and the identifiers are
  pairwise distinct whatever the names and the clock readings are.
\<close>

theorem flatten_tasks:
  "length (flattenStructureToTasks now structure) = length structure \<and>
   map title (flattenStructureToTasks now structure) = map fst structure \<and>
   map task_id (flattenStructureToTasks now structure) =
     map (\<lambda>p. make_id (fst (snd p)) (now (fst p)) (fst p)) (zip [0..<length structure] structure) \<and>
   map status (flattenStructureToTasks now structure) = replicate (length structure) Pending \<and>
   distinct (map task_id (flattenStructureToTasks now structure))"
  by (simp add: flattenStructureToTasks_def distinct_ids) (simp add: flatten_loop_eq make_task_def map_replicate_const [symmetric] comp_def map_snd_zip_upt map_snd_zip_upt [of "\<lambda>_. Pending"])

section \<open>Properties of the per-task routine\<close>

lemma findIndex_None: "findIndex P xs = None \<longleftrightarrow> (\<forall>x \<in> set xs. \<not> P x)"
  by (induction xs) auto

lemma findIndex_Some:
  "findIndex P xs = Some i \<Longrightarrow> i < length xs \<and> P (xs ! i) \<and> (\<forall>j < i. \<not> P (xs ! j))"
proof (induction xs arbitrary: i)
  case Nil
  then show ?case by simp
next
  case (Cons x xs)
  show ?case
  proof (cases "P x")
    case True
    with Cons.prems show ?thesis by simp
  next
    case False
    with Cons.prems obtain k where k: "findIndex P xs = Some k" "i = Suc k"
      by auto
    from Cons.IH [OF k(1)] False k(2) show ?thesis
      by (auto simp: nth_Cons split: nat.splits)
  qed
qed

lemma findIndex_least:
  "i < length xs \<Longrightarrow> P (xs ! i) \<Longrightarrow> \<forall>j < i. \<not> P (xs ! j) \<Longrightarrow> findIndex P xs = Some i"
proof (induction xs arbitrary: i)
  case Nil
  then show ?case by simp
next
  case (Cons x xs)
  show ?case
  proof (cases i)
    case 0
    with Cons.prems show ?thesis by simp
  next
    case (Suc k)
    with Cons.prems have "\<not> P x" by auto
    moreover have "findIndex P xs = Some k"
      using Cons.prems Suc by (intro Cons.IH) auto
    ultimately show ?thesis using Suc by simp
  qed
qed

lemma find_findIndex: "find P xs = map_option (\<lambda>i. xs ! i) (findIndex P xs)"
  by (induction xs) (auto simp: option.map_comp comp_def)

lemma findIndex_task_id:
  "distinct (map task_id tasks) \<Longrightarrow> k < length tasks \<Longrightarrow>
   findIndex (\<lambda>t. task_id t = task_id (tasks ! k)) tasks = Some k"
  by (rule findIndex_least) (auto simp: distinct_conv_nth)

text \<open>
  C10.  Called with an identifier that no task bears, or whose task is not pending, or
  while auto-run is off, the per-task routine returns at once: nothing is queued, the
  ref cell is untouched and no stream is opened, so no task changes.
\<close>

theorem handleGenerateChapterContent_noop:
  assumes "taskId \<notin> task_id ` set (chapterTasks (rendered w)) \<or>
           (\<exists>t. find (\<lambda>t. task_id t = taskId) (chapterTasks (rendered w)) = Some t \<and> status t \<noteq> Pending) \<or>
           \<not> isAutoGeneratingChapters (rendered w)"
  shows "handleGenerateChapterContent taskId w = w"
proof -
  let ?ts = "chapterTasks (rendered w)"
  show ?thesis
  proof (cases "findIndex (\<lambda>t. task_id t = taskId) ?ts")
    case None
    then show ?thesis by (simp add: handleGenerateChapterContent_def Let_def)
  next
    case (Some i)
    then have "taskId \<in> task_id ` set ?ts"
      using findIndex_Some [OF Some] by force
    with assms have "status (?ts ! i) \<noteq> Pending \<or> \<not> isAutoGeneratingChapters (rendered w)"
      using Some by (auto simp: find_findIndex)
    then show ?thesis using Some by (auto simp: handleGenerateChapterContent_def Let_def)
  qed
qed

theorem handleGenerateChapterContent_noop_witness:
  "(\<exists>t. find (\<lambda>t. task_id t = ascii ''a'')
       (chapterTasks (rendered (demo_world [demo_task ''a'' ''Ch1'' Done ''Hello world''] True))) = Some t \<and>
       status t \<noteq> Pending) \<and>
   handleGenerateChapterContent (ascii ''a'') (demo_world [demo_task ''a'' ''Ch1'' Done ''Hello world''] True) =
     demo_world [demo_task ''a'' ''Ch1'' Done ''Hello world''] True"
proof -
  have h: "\<exists>t. find (\<lambda>t. task_id t = ascii ''a'')
       (chapterTasks (rendered (demo_world [demo_task ''a'' ''Ch1'' Done ''Hello world''] True))) = Some t \<and>
       status t \<noteq> Pending"
    by (simp add: demo_world_def demo_state_def demo_task_def)
  show ?thesis
    using h handleGenerateChapterContent_noop [of "ascii ''a''" "demo_world [demo_task ''a'' ''Ch1'' Done ''Hello world''] True"]
    by blast
qed

section \<open>The driver's selection\<close>

lemma find_least_pending:
  assumes "k < length tasks" and "status (tasks ! k) = Pending"
    and "\<forall>j < k. status (tasks ! j) \<noteq> Pending"
  shows "find (\<lambda>task. status task = Pending) tasks = Some (tasks ! k)"
  using findIndex_least [of k tasks "\<lambda>task. status task = Pending", OF assms]
  by (simp add: find_findIndex)

lemma handleGenerateChapterContent_started:
  assumes "userInputs (rendered w) \<noteq> None" and "bookStructure (rendered w) \<noteq> None"
    and "isAutoGeneratingChapters (rendered w)" and "\<not> apiKeyMissing (rendered w)"
    and "distinct (map task_id (chapterTasks (rendered w)))"
    and "k < length (chapterTasks (rendered w))"
    and "status (chapterTasks (rendered w) ! k) = Pending"
  shows "handleGenerateChapterContent (task_id (chapterTasks (rendered w) ! k)) w =
     w\<lparr> queue := queue w @
           [SetActivelyGeneratingChapterId (Some (task_id (chapterTasks (rendered w) ! k))),
            UpdaterGenerating (task_id (chapterTasks (rendered w) ! k))],
        generatingChapterContentRef := [],
        running := Some
          \<lparr> inv_taskId = task_id (chapterTasks (rendered w) ! k),
            inv_title = Some (title (chapterTasks (rendered w) ! k)),
            inv_request =
              \<lparr> chapterTitle = title (chapterTasks (rendered w) ! k),
                chapterOutlineJson = description (chapterTasks (rendered w) ! k),
                fullBookStructureJson =
                  JSON_stringify (case bookStructure (rendered w) of Some b \<Rightarrow> b | None \<Rightarrow> JNull),
                previouslyGeneratedChaptersContent =
                  previouslyGeneratedContent (chapterTasks (rendered w)) k \<rparr> \<rparr> \<rparr>"
proof -
  have "findIndex (\<lambda>t. task_id t = task_id (chapterTasks (rendered w) ! k)) (chapterTasks (rendered w)) = Some k"
    using assms(5,6) by (rule findIndex_task_id)
  then show ?thesis using assms(1-4,7)
    by (auto simp: handleGenerateChapterContent_def Let_def find_findIndex)
qed

text \<open>
  C4.  In the chapter-generation phase, with auto-run on and no chapter being generated,
  the driver hands the task at the lowest position among the pending ones to the
  per-task routine, which queues its start when the inputs and the outline are present;
  with no pending task the only thing queued is the switching off of auto-run, and the
  next render leaves every task as it was.
\<close>

theorem auto_advance_selects_first_pending:
  assumes "currentStep (rendered w) = GENERATING_CHAPTERS"
    and "isAutoGeneratingChapters (rendered w)"
    and "activelyGeneratingChapterId (rendered w) = None"
    and "\<not> apiKeyMissing (rendered w)"
  shows "(\<forall>k. k < length (chapterTasks (rendered w)) \<and>
              status (chapterTasks (rendered w) ! k) = Pending \<and>
              (\<forall>j < k. status (chapterTasks (rendered w) ! j) \<noteq> Pending) \<longrightarrow>
            auto_advance_effect w =
              handleGenerateChapterContent (task_id (chapterTasks (rendered w) ! k)) w \<and>
            (userInputs (rendered w) \<noteq> None \<and> bookStructure (rendered w) \<noteq> None \<and>
             distinct (map task_id (chapterTasks (rendered w))) \<longrightarrow>
               map_option inv_taskId (running (auto_advance_effect w)) =
                 Some (task_id (chapterTasks (rendered w) ! k)) \<and>
               queue (auto_advance_effect w) = queue w @
                 [SetActivelyGeneratingChapterId (Some (task_id (chapterTasks (rendered w) ! k))),
                  UpdaterGenerating (task_id (chapterTasks (rendered w) ! k))])) \<and>
         ((\<forall>t \<in> set (chapterTasks (rendered w)). status t \<noteq> Pending) \<longrightarrow>
            auto_advance_effect w = w\<lparr> queue := queue w @ [SetIsAutoGeneratingChapters False] \<rparr> \<and>
            (queue w = [] \<longrightarrow>
               chapterTasks (rendered (render now (auto_advance_effect w))) = chapterTasks (rendered w) \<and>
               \<not> isAutoGeneratingChapters (rendered (render now (auto_advance_effect w))) \<and>
               running (render now (auto_advance_effect w)) = running w))"
proof (intro conjI allI impI)
  fix k
  assume k: "k < length (chapterTasks (rendered w)) \<and>
              status (chapterTasks (rendered w) ! k) = Pending \<and>
              (\<forall>j < k. status (chapterTasks (rendered w) ! j) \<noteq> Pending)"
  then have f: "find (\<lambda>task. status task = Pending) (chapterTasks (rendered w)) =
      Some (chapterTasks (rendered w) ! k)"
    by (intro find_least_pending) auto
  show e: "auto_advance_effect w =
      handleGenerateChapterContent (task_id (chapterTasks (rendered w) ! k)) w"
    using assms f by (simp add: auto_advance_effect_def)
  assume u: "userInputs (rendered w) \<noteq> None \<and> bookStructure (rendered w) \<noteq> None \<and>
             distinct (map task_id (chapterTasks (rendered w)))"
  have s: "handleGenerateChapterContent (task_id (chapterTasks (rendered w) ! k)) w = 
     w\<lparr> queue := queue w @
           [SetActivelyGeneratingChapterId (Some (task_id (chapterTasks (rendered w) ! k))),
            UpdaterGenerating (task_id (chapterTasks (rendered w) ! k))],
        generatingChapterContentRef := [],
        running := Some
          \<lparr> inv_taskId = task_id (chapterTasks (rendered w) ! k),
            inv_title = Some (title (chapterTasks (rendered w) ! k)),
            inv_request =
              \<lparr> chapterTitle = title (chapterTasks (rendered w) ! k),
                chapterOutlineJson = description (chapterTasks (rendered w) ! k),
                fullBookStructureJson =
                  JSON_stringify (case bookStructure (rendered w) of Some b \<Rightarrow> b | None \<Rightarrow> JNull),
                previouslyGeneratedChaptersContent =
                  previouslyGeneratedContent (chapterTasks (rendered w)) k \<rparr> \<rparr> \<rparr>"
    using u k assms by (intro handleGenerateChapterContent_started) auto
  show "map_option inv_taskId (running (auto_advance_effect w)) =
          Some (task_id (chapterTasks (rendered w) ! k))"
    unfolding e s by simp
  show "queue (auto_advance_effect w) = queue w @
                 [SetActivelyGeneratingChapterId (Some (task_id (chapterTasks (rendered w) ! k))),
                  UpdaterGenerating (task_id (chapterTasks (rendered w) ! k))]"
    unfolding e s by simp
next
  assume n: "\<forall>t \<in> set (chapterTasks (rendered w)). status t \<noteq> Pending"
  then have f: "find (\<lambda>task. status task = Pending) (chapterTasks (rendered w)) = None"
    by (simp add: find_None_iff)
  show e: "auto_advance_effect w = w\<lparr> queue := queue w @ [SetIsAutoGeneratingChapters False] \<rparr>"
    using assms f by (simp add: auto_advance_effect_def)
  assume q: "queue w = []"
  have r: "render now (auto_advance_effect w) =
      auto_advance_effect (reflatten_effect now
        (w\<lparr> rendered := (rendered w)\<lparr> isAutoGeneratingChapters := False \<rparr>, queue := [] \<rparr>))"
    unfolding e using q by (simp add: render_def flush_def)
  have t: "rendered (auto_advance_effect (reflatten_effect now w')) = rendered w'"
     and t': "running (auto_advance_effect (reflatten_effect now w')) = running w'"
    if "\<not> isAutoGeneratingChapters (rendered w')" for w' :: "'a World"
    using that by (auto simp: auto_advance_effect_def reflatten_effect_def Let_def split: option.splits)
  show "chapterTasks (rendered (render now (auto_advance_effect w))) = chapterTasks (rendered w)"
    unfolding r by (subst t) simp_all
  show "\<not> isAutoGeneratingChapters (rendered (render now (auto_advance_effect w)))"
    unfolding r by (subst t) simp_all
  show "running (render now (auto_advance_effect w)) = running w"
    unfolding r by (subst t') simp_all
qed

theorem auto_advance_selects_first_pending_witness:
  "map_option inv_taskId (running (auto_advance_effect
      (demo_world [demo_task ''a'' ''Ch1'' Done ''Hello world'', demo_task ''b'' ''Ch2'' Pending [],
                   demo_task ''c'' ''Ch3'' Pending []] True))) = Some (ascii ''b'') \<and>
   auto_advance_effect (demo_world [demo_task ''a'' ''Ch1'' Done ''Hello world''] True) =
     (demo_world [demo_task ''a'' ''Ch1'' Done ''Hello world''] True)
       \<lparr> queue := [SetIsAutoGeneratingChapters False] \<rparr>"
proof -
  let ?w = "demo_world [demo_task ''a'' ''Ch1'' Done ''Hello world'', demo_task ''b'' ''Ch2'' Pending [],
                   demo_task ''c'' ''Ch3'' Pending []] True"
  let ?v = "demo_world [demo_task ''a'' ''Ch1'' Done ''Hello world''] True"
  have g: "currentStep (rendered ?w) = GENERATING_CHAPTERS" "isAutoGeneratingChapters (rendered ?w)"
    "activelyGeneratingChapterId (rendered ?w) = None" "\<not> apiKeyMissing (rendered ?w)"
    by (simp_all add: demo_world_def demo_state_def)
  have k: "1 < length (chapterTasks (rendered ?w)) \<and>
      status (chapterTasks (rendered ?w) ! 1) = Pending \<and>
      (\<forall>j < 1. status (chapterTasks (rendered ?w) ! j) \<noteq> Pending)"
    by (simp add: demo_world_def demo_state_def demo_task_def)
  have u: "userInputs (rendered ?w) \<noteq> None \<and> bookStructure (rendered ?w) \<noteq> None \<and>
      distinct (map task_id (chapterTasks (rendered ?w)))"
    by (simp add: demo_world_def demo_state_def demo_task_def ascii_def)
  have i: "task_id (chapterTasks (rendered ?w) ! 1) = ascii ''b''"
    by (simp add: demo_world_def demo_state_def demo_task_def)
  have h: "currentStep (rendered ?v) = GENERATING_CHAPTERS" "isAutoGeneratingChapters (rendered ?v)"
    "activelyGeneratingChapterId (rendered ?v) = None" "\<not> apiKeyMissing (rendered ?v)"
    by (simp_all add: demo_world_def demo_state_def)
  have n: "\<forall>t \<in> set (chapterTasks (rendered ?v)). status t \<noteq> Pending"
    by (simp add: demo_world_def demo_state_def demo_task_def)
  have q: "queue ?v = []"
    by (simp add: demo_world_def)
  from auto_advance_selects_first_pending [OF g] k u i
  have "map_option inv_taskId (running (auto_advance_effect ?w)) = Some (ascii ''b'')"
    by metis
  moreover from auto_advance_selects_first_pending [OF h] n q
  have "auto_advance_effect ?v = ?v\<lparr> queue := [SetIsAutoGeneratingChapters False] \<rparr>"
    by simp
  ultimately show ?thesis by simp
qed

section \<open>The preceding content of a request\<close>

lemma join_empty_sep: "join [] xs = concat xs"
  by (induction "[] :: jsstring" xs rule: join.induct) simp_all

text \<open>
  C6 as stated fails: the preceding-content argument is not the concatenation of the
  committed contents.  With one done task of title \<open>Ch1\<close> and content \<open>Hello world\<close>
  before the task being started, the argument is not \<open>Hello world\<close>.
\<close>

theorem preceding_content_counterexample:
  "\<not> (map_option (\<lambda>i. previouslyGeneratedChaptersContent (inv_request i))
        (running (auto_advance_effect
          (demo_world [demo_task ''a'' ''Ch1'' Done ''Hello world'',
                       demo_task ''b'' ''Ch2'' Pending []] True))) =
      Some (concat (map (\<lambda>t. case content t of Some c \<Rightarrow> c | None \<Rightarrow> [])
        (filter (\<lambda>t. status t = Done)
          (take 1 [demo_task ''a'' ''Ch1'' Done ''Hello world'',
                   demo_task ''b'' ''Ch2'' Pending []])))))"
  by code_simp

text \<open>
  C6, amended.  For the task started at position \<open>k\<close>, the preceding-content argument
  of the request is the concatenation, in task order, of one block for every task
  before \<open>k\<close> that is done and has a non-empty content: the line \<open>Chapter: \<close> and the
  title, the content, and the line \<open>---END OF PREVIOUS CHAPTER---\<close> between blank
  lines.  Tasks from \<open>k\<close> on, tasks that are not done, and done tasks with an empty
  content contribute nothing.
\<close>

theorem preceding_content_blocks:
  assumes "userInputs (rendered w) \<noteq> None" and "bookStructure (rendered w) \<noteq> None"
    and "isAutoGeneratingChapters (rendered w)" and "\<not> apiKeyMissing (rendered w)"
    and "distinct (map task_id (chapterTasks (rendered w)))"
    and "k < length (chapterTasks (rendered w))"
    and "status (chapterTasks (rendered w) ! k) = Pending"
  shows "map_option (\<lambda>i. previouslyGeneratedChaptersContent (inv_request i))
           (running (handleGenerateChapterContent (task_id (chapterTasks (rendered w) ! k)) w)) =
         Some (concat (map
           (\<lambda>t. ascii ''Chapter: '' @ title t @ [0x0A] @ the (content t) @
                [0x0A, 0x0A] @ ascii ''---END OF PREVIOUS CHAPTER---'' @ [0x0A, 0x0A])
           (filter (\<lambda>t. status t = Done \<and> content t \<noteq> None \<and> content t \<noteq> Some [])
             (take k (chapterTasks (rendered w))))))"
proof -
  have eq: "map chapter_block (filter (\<lambda>t. status t = Done \<and> content t \<noteq> None \<and> content t \<noteq> Some []) ts) =
        map (\<lambda>t. ascii ''Chapter: '' @ title t @ [0x0A] @ the (content t) @
                [0x0A, 0x0A] @ ascii ''---END OF PREVIOUS CHAPTER---'' @ [0x0A, 0x0A])
          (filter (\<lambda>t. status t = Done \<and> content t \<noteq> None \<and> content t \<noteq> Some []) ts)" for ts
    by (rule map_cong) (auto simp: chapter_block_def)
  show ?thesis
    unfolding handleGenerateChapterContent_started [OF assms] previouslyGeneratedContent_def
      join_empty_sep eq
    by simp
qed

theorem preceding_content_blocks_witness:
  "map_option (\<lambda>i. previouslyGeneratedChaptersContent (inv_request i))
     (running (handleGenerateChapterContent (ascii ''c'')
       (demo_world [demo_task ''a'' ''Ch1'' Done ''Hello world'', demo_task ''b'' ''Ch2'' Error ''Hel'',
                    demo_task ''c'' ''Ch3'' Pending [], demo_task ''d'' ''Ch4'' Done ''x''] True))) =
   Some (ascii ''Chapter: Ch1'' @ [0x0A] @ ascii ''Hello world'' @ [0x0A, 0x0A] @
         ascii ''---END OF PREVIOUS CHAPTER---'' @ [0x0A, 0x0A])"
proof -
  let ?w = "demo_world [demo_task ''a'' ''Ch1'' Done ''Hello world'', demo_task ''b'' ''Ch2'' Error ''Hel'',
                    demo_task ''c'' ''Ch3'' Pending [], demo_task ''d'' ''Ch4'' Done ''x''] True"
  have g: "userInputs (rendered ?w) \<noteq> None" "bookStructure (rendered ?w) \<noteq> None"
    "isAutoGeneratingChapters (rendered ?w)" "\<not> apiKeyMissing (rendered ?w)"
    by (simp_all add: demo_world_def demo_state_def)
  have d: "distinct (map task_id (chapterTasks (rendered ?w)))"
    by (simp add: demo_world_def demo_state_def demo_task_def ascii_def)
  have k: "2 < length (chapterTasks (rendered ?w))" "status (chapterTasks (rendered ?w) ! 2) = Pending"
    by (simp_all add: demo_world_def demo_state_def demo_task_def)
  have i: "task_id (chapterTasks (rendered ?w) ! 2) = ascii ''c''"
    by (simp add: demo_world_def demo_state_def demo_task_def)
  show ?thesis
    using preceding_content_blocks [OF g d k]
    unfolding i by (simp add: demo_world_def demo_state_def demo_task_def ascii_def)
qed

section \<open>Navigation and the task list\<close>

text \<open>The two first runs end with auto-run off and every chapter done or failed.\<close>

lemma halted_run_tasks:
  "map (\<lambda>t. (task_id t, title t, status t, content t))
     (chapterTasks (rendered (run halted_run review_world))) =
     [(ascii ''Ch1-17-0'', ascii ''Ch1'', Done, Some (ascii ''Hello world'')),
      (ascii ''Ch2-17-1'', ascii ''Ch2'', Error, Some [])] \<and>
   \<not> isAutoGeneratingChapters (rendered (run halted_run review_world)) \<and>
   currentStep (rendered (run halted_run review_world)) = GENERATING_CHAPTERS"
  by code_simp

lemma finished_run_tasks:
  "map (\<lambda>t. (task_id t, title t, status t, content t))
     (chapterTasks (rendered (run finished_run review_world))) =
     [(ascii ''Ch1-17-0'', ascii ''Ch1'', Done, Some (ascii ''Hello world'')),
      (ascii ''Ch2-17-1'', ascii ''Ch2'', Done, Some [])] \<and>
   \<not> isAutoGeneratingChapters (rendered (run finished_run review_world)) \<and>
   currentStep (rendered (run finished_run review_world)) = GENERATING_CHAPTERS"
  by code_simp

text \<open>
  C7.  The code does not keep a started task list across the round trip.  The user
  accepts the outline and starts the automatic generation; the first chapter is written
  (\<open>Hello world\<close>) and the second one fails, which switches auto-run off.  The list,
  one chapter done and one failed, survives the step back to the outline review: the
  effect of lines 103 to 109 flattens again only when the list is empty or, on the
  review pane, all pending.  The forward transition (line 113) has no such test: it
  flattens the outline again whatever the list holds, and afterwards both chapters are
  pending and empty under new identifiers.  The same happens to a run in which both
  chapters are done.  (Section 3 of the specification describes this behaviour, the
  list being "entirely replaced" when the user returns to the outline and accepts it
  again; sections 4.5 and 8, from which the claim is taken, say the opposite.)
\<close>

theorem proceed_discards_progress:
  "map (\<lambda>t. (task_id t, title t, status t, content t))
     (chapterTasks (rendered (run (halted_run @ [GoBack, Render (\<lambda>_. 30)]) review_world))) =
     [(ascii ''Ch1-17-0'', ascii ''Ch1'', Done, Some (ascii ''Hello world'')),
      (ascii ''Ch2-17-1'', ascii ''Ch2'', Error, Some [])] \<and>
   currentStep (rendered (run (halted_run @ [GoBack, Render (\<lambda>_. 30)]) review_world)) =
     OUTLINE_REVIEW \<and>
   map (\<lambda>t. (task_id t, title t, status t, content t))
     (chapterTasks (rendered (run (halted_run @ back_and_forth) review_world))) =
     [(ascii ''Ch1-40-0'', ascii ''Ch1'', Pending, Some []),
      (ascii ''Ch2-40-1'', ascii ''Ch2'', Pending, Some [])] \<and>
   currentStep (rendered (run (halted_run @ back_and_forth) review_world)) =
     GENERATING_CHAPTERS \<and>
   map (\<lambda>t. (task_id t, title t, status t, content t))
     (chapterTasks (rendered (run (finished_run @ back_and_forth) review_world))) =
     [(ascii ''Ch1-40-0'', ascii ''Ch1'', Pending, Some []),
      (ascii ''Ch2-40-1'', ascii ''Ch2'', Pending, Some [])]"
  by code_simp

section \<open>Failure of a chapter stream\<close>

text \<open>
  C1.  The code loses the partial content.  Two pending chapters; auto-run is started;
  the stream of the first chapter delivers \<open>Hello \<close> and then fails.  The \<open>catch\<close>
  block queues an updater that reads the ref cell when it runs, and the \<open>finally\<close>
  block empties the cell in the same turn, before the component can render: the first
  task ends in \<open>Error\<close> with the failure's message and an empty content, whether the
  fragment was rendered before the failure (then the screen has shown \<open>Hello \<close>) or
  was still queued.  The rest of the claim holds: auto-run is off and the second task
  is still pending.
\<close>

theorem failure_loses_partial_content:
  "map (\<lambda>t. (status t, content t, errorMessage t))
     (chapterTasks (rendered (run
        [StartAutomatic, Render (\<lambda>_. 5), Chunk (Some (ascii ''Hello '')),
         StreamFail (ErrorObj (ascii ''quota'')), Render (\<lambda>_. 5)]
        (demo_world [demo_task ''a'' ''Ch1'' Pending [], demo_task ''b'' ''Ch2'' Pending []] False)))) =
     [(Error, Some [], Some (ascii ''quota'')), (Pending, Some [], None)] \<and>
   \<not> isAutoGeneratingChapters (rendered (run
        [StartAutomatic, Render (\<lambda>_. 5), Chunk (Some (ascii ''Hello '')),
         StreamFail (ErrorObj (ascii ''quota'')), Render (\<lambda>_. 5)]
        (demo_world [demo_task ''a'' ''Ch1'' Pending [], demo_task ''b'' ''Ch2'' Pending []] False))) \<and>
   map (\<lambda>t. (status t, content t))
     (chapterTasks (rendered (run
        [StartAutomatic, Render (\<lambda>_. 5), Chunk (Some (ascii ''Hello '')), Render (\<lambda>_. 5)]
        (demo_world [demo_task ''a'' ''Ch1'' Pending [], demo_task ''b'' ''Ch2'' Pending []] False)))) =
     [(Generating, Some (ascii ''Hello '')), (Pending, Some [])] \<and>
   map (\<lambda>t. (status t, content t, errorMessage t))
     (chapterTasks (rendered (run
        [StartAutomatic, Render (\<lambda>_. 5), Chunk (Some (ascii ''Hello '')), Render (\<lambda>_. 5),
         StreamFail (ErrorObj (ascii ''quota'')), Render (\<lambda>_. 5)]
        (demo_world [demo_task ''a'' ''Ch1'' Pending [], demo_task ''b'' ''Ch2'' Pending []] False)))) =
     [(Error, Some [], Some (ascii ''quota'')), (Pending, Some [], None)]"
  by code_simp

section \<open>Outline parsing\<close>

lemma space_not_word: "is_space c \<Longrightarrow> \<not> is_word c"
  by (auto simp: is_space_def is_word_def is_alnum_def word_le_nat_alt)

lemma backtick_not_space: "\<not> is_space 0x60"
  by (simp add: is_space_def)

lemma dropWhile_all: "list_all P xs \<Longrightarrow> dropWhile P (xs @ ys) = dropWhile P ys"
  by (simp add: list_all_iff)

lemma dropWhile_stop: "ys \<noteq> [] \<Longrightarrow> \<not> P (hd ys) \<Longrightarrow> dropWhile P ys = ys"
  by (cases ys) simp_all

lemma strip_right:
  assumes "body \<noteq> []" and "\<not> is_space (last body)" and "list_all is_space ws"
  shows "rev (dropWhile is_space (rev (body @ ws))) = body"
proof -
  have "dropWhile is_space (rev ws @ rev body) = dropWhile is_space (rev body)"
    using assms(3) by (intro dropWhile_all) (simp add: list_all_iff)
  moreover have "dropWhile is_space (rev body) = rev body"
    using assms(1,2) by (intro dropWhile_stop) (simp_all add: hd_rev)
  ultimately show ?thesis by simp
qed

lemma trim_spaces:
  assumes "list_all is_space pre" and "body \<noteq> []" and "\<not> is_space (hd body)"
    and "\<not> is_space (last body)" and "list_all is_space post"
  shows "trim (pre @ body @ post) = body"
proof -
  have "dropWhile is_space (pre @ body @ post) = dropWhile is_space (body @ post)"
    using assms(1) by (rule dropWhile_all)
  also have "\<dots> = body @ post"
    using assms(2,3) by (intro dropWhile_stop) simp_all
  finally show ?thesis
    using strip_right [OF assms(2,4,5)] by (simp add: trim_def)
qed

lemma fence_group2_fenced:
  assumes "list_all is_word lang" and "list_all is_space ws1"
    and "body \<noteq> []" and "\<not> is_space (hd body)" and "\<not> is_space (last body)"
    and "ws1 \<noteq> [] \<or> \<not> is_word (hd body)" and "list_all is_space ws2"
  shows "fence_group2 (backticks @ lang @ ws1 @ body @ ws2 @ backticks) = Some body"
proof -
  let ?m = "lang @ ws1 @ body @ ws2"
  let ?s = "backticks @ ?m @ backticks"
  have len: "length ?s = 6 + length ?m" by (simp add: backticks_def)
  have t: "take 3 ?s = backticks" by (simp add: backticks_def)
  have "drop (length ?s - 3) ?s = drop (length (backticks @ ?m)) ((backticks @ ?m) @ backticks)"
    by (simp add: backticks_def)
  then have d: "drop (length ?s - 3) ?s = backticks" by (simp only: drop_append) simp
  have "drop 3 ?s = ?m @ backticks" by (simp add: backticks_def)
  then have m: "take (length ?s - 6) (drop 3 ?s) = ?m" using len by simp
  have nw: "ws1 @ body @ ws2 \<noteq> []" "\<not> is_word (hd (ws1 @ body @ ws2))"
    using assms(2,3,6) by (cases ws1; auto simp: space_not_word)+
  have "dropWhile is_word ?m = dropWhile is_word (ws1 @ body @ ws2)"
    using assms(1) by (rule dropWhile_all)
  also have "\<dots> = ws1 @ body @ ws2" using nw by (rule dropWhile_stop)
  finally have w: "dropWhile is_word ?m = ws1 @ body @ ws2" .
  have "dropWhile is_space (ws1 @ body @ ws2) = dropWhile is_space (body @ ws2)"
    using assms(2) by (rule dropWhile_all)
  also have "\<dots> = body @ ws2" using assms(3,4) by (intro dropWhile_stop) simp_all
  finally have s: "dropWhile is_space (ws1 @ body @ ws2) = body @ ws2" .
  have "fence_group2 ?s =
      Some (rev (dropWhile is_space (rev (dropWhile is_space (dropWhile is_word
        (take (length ?s - 6) (drop 3 ?s)))))))"
    unfolding fence_group2_def using len t d by (simp only: if_True le_add1 simp_thms)
  then show ?thesis
    unfolding m w s using strip_right [OF assms(3,5,7)] by simp
qed

lemma json_text_fenced:
  assumes "list_all is_space pre" and "list_all is_word lang" and "list_all is_space ws1"
    and "body \<noteq> []" and "\<not> is_space (hd body)" and "\<not> is_space (last body)"
    and "ws1 \<noteq> [] \<or> \<not> is_word (hd body)" and "list_all is_space ws2"
    and "list_all is_space post"
  shows "json_text (pre @ (backticks @ lang @ ws1 @ body @ ws2 @ backticks) @ post) = body"
proof -
  let ?f = "backticks @ lang @ ws1 @ body @ ws2 @ backticks"
  have "trim (pre @ ?f @ post) = ?f"
    using assms(1,9) by (intro trim_spaces) (simp_all add: backticks_def backtick_not_space)
  moreover have "fence_group2 ?f = Some body"
    using assms(2-8) by (rule fence_group2_fenced)
  moreover have "trim body = body"
    using trim_spaces [of "[]" body "[]"] assms(4-6) by simp
  ultimately show ?thesis using assms(4) by (simp add: json_text_def)
qed

lemma json_text_plain:
  assumes "take 3 (trim text) \<noteq> backticks"
  shows "json_text text = trim text"
  using assms by (simp add: json_text_def fence_group2_def)

text \<open>
  A text that is valid JSON is accepted whatever value it denotes: \<open>parseJsonFromText\<close>
  returns the value (lines 29 to 34 of geminiService.ts), and the submit handler stores
  it and, once the title has come, shows the outline review (lines 66 to 71 of App.tsx).
\<close>

lemma valid_json_accepted:
  assumes "json_parse (json_text text) = Some v"
  shows "parseJsonFromText json_parse text = Inr v"
    and "\<not> apiKeyMissing s \<Longrightarrow> foldl append_chunk_text [] chunks = text \<Longrightarrow>
         currentStep (handleUserInputSubmit json_parse inputs (chunks, None) (Inr t) s) =
           OUTLINE_REVIEW \<and>
         error (handleUserInputSubmit json_parse inputs (chunks, None) (Inr t) s) = None \<and>
         bookStructure (handleUserInputSubmit json_parse inputs (chunks, None) (Inr t) s) =
           (if truthy v then Some v else None)"
proof -
  show e: "parseJsonFromText json_parse text = Inr v"
    using assms by (simp add: parseJsonFromText_def)
  assume "\<not> apiKeyMissing s" and "foldl append_chunk_text [] chunks = text"
  then show "currentStep (handleUserInputSubmit json_parse inputs (chunks, None) (Inr t) s) =
           OUTLINE_REVIEW \<and>
         error (handleUserInputSubmit json_parse inputs (chunks, None) (Inr t) s) = None \<and>
         bookStructure (handleUserInputSubmit json_parse inputs (chunks, None) (Inr t) s) =
           (if truthy v then Some v else None)"
    using e by (simp add: handleUserInputSubmit_def Let_def setBookStructure_def)
qed

text \<open>
  The answer \<open>{"Ch1": "desc1", "Ch2": "desc2"}\<close>, come in two chunks, takes the
  component from its first state to the outline review with that outline; the effect
  of lines 103 to 109 then makes the two tasks.
\<close>

lemma outline_answer_accepted:
  "handleUserInputSubmit JSON_parse ()
     ([Some (take 9 outline_answer), Some (drop 9 outline_answer)], None) (Inr (ascii ''T''))
     initial_state = rendered review_world \<and>
   running review_world = None \<and>
   map (\<lambda>t. (task_id t, title t, status t, content t))
     (chapterTasks (rendered (run [Render (\<lambda>_. 12)] review_world))) =
     [(ascii ''Ch1-11-0'', ascii ''Ch1'', Pending, Some []),
      (ascii ''Ch2-11-1'', ascii ''Ch2'', Pending, Some [])]"
  by code_simp

text \<open>
  C9 as the specification has it fails.  The answer \<open>["Ch1"]\<close> is valid JSON and not
  an outline: an array, where an outline is a mapping from names to strings or
  mappings.  No error is raised: \<open>parseJsonFromText\<close> returns the array, and the
  workflow goes on to the outline review with the array as the outline.
\<close>

theorem array_answer_accepted:
  "JSON_parse (json_text array_answer) = Some (JArray [Leaf (ascii ''Ch1'')]) \<and>
   \<not> structured_outline (JArray [Leaf (ascii ''Ch1'')]) \<and>
   parseJsonFromText JSON_parse array_answer = Inr (JArray [Leaf (ascii ''Ch1'')]) \<and>
   currentStep (handleUserInputSubmit JSON_parse () ([Some array_answer], None)
     (Inr (ascii ''T'')) initial_state) = OUTLINE_REVIEW \<and>
   error (handleUserInputSubmit JSON_parse () ([Some array_answer], None)
     (Inr (ascii ''T'')) initial_state) = None \<and>
   bookStructure (handleUserInputSubmit JSON_parse () ([Some array_answer], None)
     (Inr (ascii ''T'')) initial_state) = Some (JArray [Leaf (ascii ''Ch1'')])"
  by code_simp

text \<open>
  The array then goes the way of an outline: the forward transition makes one task of
  its one element, named by the index.
\<close>

lemma array_answer_flattened:
  "map (\<lambda>t. (task_id t, title t, description t, status t))
     (chapterTasks (rendered (run [Proceed (\<lambda>_. 17), Render (\<lambda>_. 18)]
        \<lparr> rendered = handleUserInputSubmit JSON_parse () ([Some array_answer], None)
            (Inr (ascii ''T'')) initial_state,
          queue = [], generatingChapterContentRef = [], running = None \<rparr>))) =
     [(ascii ''0-17-0'', ascii ''0'', ascii ''Ch1'', Pending)]"
  by code_simp

text \<open>
  C9, amended.  The text given to the JSON parser is the streamed text trimmed, and,
  when that is a block between two runs of three backticks, the inside of the block
  without the language tag and the white space around it; a text that does not start
  with backticks is only trimmed.  When this text is not valid JSON, that is, when
  \<open>JSON.parse\<close> throws, \<open>parseJsonFromText\<close> raises its error, and the submit
  handler, whose stream ended normally with that text, leaves the workflow at the input
  stage with the error's message and without an outline.
\<close>

theorem invalid_json_returns_to_input:
  "(list_all is_space pre \<and> list_all is_word lang \<and> list_all is_space ws1 \<and> body \<noteq> [] \<and>
    \<not> is_space (hd body) \<and> \<not> is_space (last body) \<and> (ws1 \<noteq> [] \<or> \<not> is_word (hd body)) \<and>
    list_all is_space ws2 \<and> list_all is_space post \<longrightarrow>
      json_text (pre @ (backticks @ lang @ ws1 @ body @ ws2 @ backticks) @ post) = body) \<and>
   (take 3 (trim plain) \<noteq> backticks \<longrightarrow> json_text plain = trim plain) \<and>
   (json_parse (json_text text) = None \<longrightarrow>
      parseJsonFromText json_parse text = Inl (ErrorObj invalid_json_message) \<and>
      (\<not> apiKeyMissing s \<and> foldl append_chunk_text [] chunks = text \<longrightarrow>
         currentStep (handleUserInputSubmit json_parse inputs (chunks, None) titleResult s) = USER_INPUT \<and>
         error (handleUserInputSubmit json_parse inputs (chunks, None) titleResult s) =
           Some invalid_json_message \<and>
         bookStructure (handleUserInputSubmit json_parse inputs (chunks, None) titleResult s) = None \<and>
         chapterTasks (handleUserInputSubmit json_parse inputs (chunks, None) titleResult s) = []))"
proof (intro conjI impI)
  assume "list_all is_space pre \<and> list_all is_word lang \<and> list_all is_space ws1 \<and> body \<noteq> [] \<and>
    \<not> is_space (hd body) \<and> \<not> is_space (last body) \<and> (ws1 \<noteq> [] \<or> \<not> is_word (hd body)) \<and>
    list_all is_space ws2 \<and> list_all is_space post"
  then show "json_text (pre @ (backticks @ lang @ ws1 @ body @ ws2 @ backticks) @ post) = body"
    by (intro json_text_fenced) simp_all
next
  assume "take 3 (trim plain) \<noteq> backticks"
  then show "json_text plain = trim plain" by (rule json_text_plain)
next
  assume p: "json_parse (json_text text) = None"
  then show e: "parseJsonFromText json_parse text = Inl (ErrorObj invalid_json_message)"
    by (simp add: parseJsonFromText_def)
  assume "\<not> apiKeyMissing s \<and> foldl append_chunk_text [] chunks = text"
  then have h: "handleUserInputSubmit json_parse inputs (chunks, None) titleResult s =
      outline_catch (ErrorObj invalid_json_message)
        (s\<lparr> userInputs := Some inputs, currentStep := GENERATING_OUTLINE,
            isLoading := True, error := None, bookStructure := None,
            bookTitle := None, chapterTasks := [] \<rparr>)"
    using e by (simp add: handleUserInputSubmit_def Let_def)
  show "currentStep (handleUserInputSubmit json_parse inputs (chunks, None) titleResult s) = USER_INPUT"
    unfolding h by (simp add: outline_catch_def)
  show "error (handleUserInputSubmit json_parse inputs (chunks, None) titleResult s) =
           Some invalid_json_message"
    unfolding h by (simp add: outline_catch_def outline_error_message_def)
  show "bookStructure (handleUserInputSubmit json_parse inputs (chunks, None) titleResult s) = None"
    unfolding h by (simp add: outline_catch_def)
  show "chapterTasks (handleUserInputSubmit json_parse inputs (chunks, None) titleResult s) = []"
    unfolding h by (simp add: outline_catch_def)
qed

theorem invalid_json_returns_to_input_witness:
  "json_text ([0x20] @ (backticks @ ascii ''json'' @ [0x0A] @ ascii ''{oops'' @ [0x0A] @ backticks) @ [0x0A]) =
     ascii ''{oops'' \<and>
   json_text (ascii '' {oops '') = ascii ''{oops'' \<and>
   JSON_parse (ascii ''{oops'') = None \<and>
   parseJsonFromText JSON_parse (ascii '' {oops '') = Inl (ErrorObj invalid_json_message) \<and>
   currentStep (handleUserInputSubmit JSON_parse ()
     ([Some (ascii '' {o''), Some (ascii ''ops '')], None) (Inr (ascii ''T''))
     initial_state) = USER_INPUT \<and>
   error (handleUserInputSubmit JSON_parse ()
     ([Some (ascii '' {o''), Some (ascii ''ops '')], None) (Inr (ascii ''T''))
     initial_state) = Some invalid_json_message"
proof -
  have a: "list_all is_space [0x20] \<and> list_all is_word (ascii ''json'') \<and> list_all is_space [0x0A] \<and>
    ascii ''{oops'' \<noteq> [] \<and> \<not> is_space (hd (ascii ''{oops'')) \<and> \<not> is_space (last (ascii ''{oops'')) \<and>
    ([0x0A] \<noteq> [] \<or> \<not> is_word (hd (ascii ''{oops''))) \<and> list_all is_space [0x0A] \<and>
    list_all is_space [0x0A]"
    by (simp add: is_space_def is_word_def is_alnum_def ascii_def)
  have b: "take 3 (trim (ascii '' {oops '')) \<noteq> backticks"
    by (simp add: trim_def is_space_def ascii_def backticks_def)
  have t: "trim (ascii '' {oops '') = ascii ''{oops''"
    by (simp add: trim_def is_space_def ascii_def)
  have p: "JSON_parse (ascii ''{oops'') = None"
    by code_simp
  have j: "json_text (ascii '' {oops '') = ascii ''{oops''"
    using b t by (simp add: json_text_plain)
  have c: "JSON_parse (json_text (ascii '' {oops '')) = None"
    unfolding j by (rule p)
  have d: "\<not> apiKeyMissing initial_state \<and>
      foldl append_chunk_text [] [Some (ascii '' {o''), Some (ascii ''ops '')] = ascii '' {oops ''"
    by (simp add: initial_state_def append_chunk_text_def ascii_def)
  from invalid_json_returns_to_input
    [of "[0x20]" "ascii ''json''" "[0x0A]" "ascii ''{oops''" "[0x0A]" "[0x0A]" "ascii '' {oops ''"
       JSON_parse "ascii '' {oops ''" initial_state
       "[Some (ascii '' {o''), Some (ascii ''ops '')]" "()" "Inr (ascii ''T'')"]
    a b c d
  show ?thesis unfolding t using p by blast
qed

section \<open>The streaming accumulator\<close>

lemma flush_Nil [simp]: "flush r [] s = s"
  by (simp add: flush_def)

lemma flush_snoc: "flush r (q @ q') s = flush r q' (flush r q s)"
  by (simp add: flush_def)

lemma flush_Cons: "flush r (u # q) s = flush r q (apply_update r u s)"
  by (simp add: flush_def)

lemma length_map_task [simp]: "length (map_task tid f ts) = length ts"
  by (simp add: map_task_def)

lemma nth_map_task:
  "k < length ts \<Longrightarrow> map_task tid f ts ! k = (if task_id (ts ! k) = tid then f (ts ! k) else ts ! k)"
  by (simp add: map_task_def)

lemma map_task_id_map_task:
  "(\<And>t. task_id (f t) = task_id t) \<Longrightarrow> map task_id (map_task tid f ts) = map task_id ts"
  by (simp add: map_task_def)

lemma rendered_reflatten_effect [simp]: "rendered (reflatten_effect now w) = rendered w"
  by (simp add: reflatten_effect_def Let_def split: option.splits)

lemma rendered_handleGenerateChapterContent [simp]:
  "rendered (handleGenerateChapterContent tid w) = rendered w"
  by (simp add: handleGenerateChapterContent_def Let_def split: option.splits)

lemma rendered_auto_advance_effect [simp]: "rendered (auto_advance_effect w) = rendered w"
  by (simp add: auto_advance_effect_def Let_def split: option.splits)

lemma ref_reflatten_effect [simp]:
  "generatingChapterContentRef (reflatten_effect now w) = generatingChapterContentRef w"
  "running (reflatten_effect now w) = running w"
  by (simp_all add: reflatten_effect_def Let_def split: option.splits)







lemma run_single [simp]: "run [e] w = step e w"
  by (simp add: run_def)


lemma run_Nil [simp]: "run [] w = w"
  by (simp add: run_def)







section \<open>At most one task is generating\<close>























section \<open>Done and failed tasks are terminal\<close>





















section \<open>The outline fragment of a task\<close>

lemma unat_hex_digit: "d < 16 \<Longrightarrow> unat (hex_digit d) = (if d < 10 then 48 + d else 87 + d)"
proof -
  assume d: "d < 16"
  have "unat (of_nat (48 + d) :: 16 word) = (48 + d) mod 2 ^ LENGTH(16)"
    by (rule unat_of_nat)
  moreover have "unat (of_nat (87 + d) :: 16 word) = (87 + d) mod 2 ^ LENGTH(16)"
    by (rule unat_of_nat)
  ultimately show ?thesis
    unfolding hex_digit_def using d by (simp only: split: if_splits) simp
qed

lemma hex_val_unat:
  "hex_val c =
     (if 48 \<le> unat c \<and> unat c \<le> 57 then Some (unat c - 48)
      else if 97 \<le> unat c \<and> unat c \<le> 102 then Some (unat c - 87)
      else if 65 \<le> unat c \<and> unat c \<le> 70 then Some (unat c - 55)
      else None)"
  by (simp add: hex_val_def word_le_nat_alt)

lemma hex_val_hex_digit: "d < 16 \<Longrightarrow> hex_val (hex_digit d) = Some d"
  unfolding hex_val_unat by (simp only: unat_hex_digit split: if_splits) auto

lemma hex_split: "4096 * (n div 4096) + 256 * (n div 256 mod 16) + 16 * (n div 16 mod 16) + n mod 16 = (n::nat)"
proof -
  define q1 where "q1 = n div 16"
  define q2 where "q2 = q1 div 16"
  define q3 where "q3 = q2 div 16"
  have 1: "n = 16 * q1 + n mod 16" by (simp add: q1_def)
  have 2: "q1 = 16 * q2 + q1 mod 16" by (simp add: q2_def)
  have 3: "q2 = 16 * q3 + q2 mod 16" by (simp add: q3_def)
  have 4: "n div 256 = q2" "n div 4096 = q3"
    by (simp_all add: q1_def q2_def q3_def div_mult2_eq [symmetric])
  have "4096 * q3 + 256 * (q2 mod 16) + 16 * (q1 mod 16) + n mod 16 = n"
    using 1 2 3 by linarith
  then show ?thesis by (simp add: 4 q1_def)
qed

lemma unicode_unit_escape:
  "unicode_unit (hex_digit (unat c div 4096)) (hex_digit (unat c div 256 mod 16))
     (hex_digit (unat c div 16 mod 16)) (hex_digit (unat c mod 16)) = Some c"
proof -
  have "unat c < 2 ^ LENGTH(16)" by (rule unsigned_less)
  then have "unat c div 4096 < 16" by simp
  then show ?thesis
    by (simp add: unicode_unit_def hex_val_hex_digit hex_split)
qed

lemma parse_chars_unit:
  "parse_chars (quote_unit c @ cs) = map_option (\<lambda>p. (c # fst p, snd p)) (parse_chars cs)"
proof -
  consider "c = 0x08" | "c = 0x09" | "c = 0x0A" | "c = 0x0C" | "c = 0x0D" | "c = 0x22" | "c = 0x5C"
    | "c \<noteq> 0x08" "c \<noteq> 0x09" "c \<noteq> 0x0A" "c \<noteq> 0x0C" "c \<noteq> 0x0D" "c \<noteq> 0x22" "c \<noteq> 0x5C"
      "c < 0x20 \<or> is_lead c \<or> is_trail c"
    | "c \<noteq> 0x08" "c \<noteq> 0x09" "c \<noteq> 0x0A" "c \<noteq> 0x0C" "c \<noteq> 0x0D" "c \<noteq> 0x22" "c \<noteq> 0x5C"
      "\<not> (c < 0x20 \<or> is_lead c \<or> is_trail c)"
    by blast
  then show ?thesis
  proof cases
    case 8
    then have "quote_unit c = UnicodeEscape c" by (simp add: quote_unit_def)
    then show ?thesis
      by (simp add: UnicodeEscape_def unicode_unit_escape)
  next
    case 9
    then have "quote_unit c = [c]" by (simp add: quote_unit_def)
    then show ?thesis using 9 by simp
  qed (simp_all add: quote_unit_def unescape_def)
qed

lemma surrogate_plain:
  "is_lead c \<or> is_trail c \<Longrightarrow> c \<noteq> 0x22 \<and> c \<noteq> 0x5C \<and> \<not> c < 0x20"
  by (auto simp: is_lead_def is_trail_def word_le_nat_alt word_less_nat_alt)

lemma parse_chars_plain:
  "c \<noteq> 0x22 \<Longrightarrow> c \<noteq> 0x5C \<Longrightarrow> \<not> c < 0x20 \<Longrightarrow>
   parse_chars (c # cs) = map_option (\<lambda>p. (c # fst p, snd p)) (parse_chars cs)"
  by simp

lemma parse_chars_quote: "parse_chars (0x22 # cs) = Some ([], cs)"
  by simp

declare parse_chars.simps [simp del]

lemma parse_chars_units: "parse_chars (quote_units s @ 0x22 # rest) = Some (s, rest)"
proof (induction s rule: quote_units.induct)
  case 1
  then show ?case by (simp add: parse_chars_quote)
next
  case (2 c)
  have "parse_chars (quote_unit c @ 0x22 # rest) =
      map_option (\<lambda>p. (c # fst p, snd p)) (parse_chars (0x22 # rest))"
    by (rule parse_chars_unit)
  then show ?case by (simp add: parse_chars_quote)
next
  case (3 c d cs)
  show ?case
  proof (cases "is_lead c \<and> is_trail d")
    case True
    then have p: "c \<noteq> 0x22" "c \<noteq> 0x5C" "\<not> c < 0x20" "d \<noteq> 0x22" "d \<noteq> 0x5C" "\<not> d < 0x20"
      using surrogate_plain [of c] surrogate_plain [of d] by simp_all
    have "quote_units (c # d # cs) @ 0x22 # rest = c # d # (quote_units cs @ 0x22 # rest)"
      using True by simp
    then show ?thesis
      using 3(1) [OF True] by (simp add: parse_chars_plain p)
  next
    case False
    have "quote_units (c # d # cs) @ 0x22 # rest =
        quote_unit c @ (quote_units (d # cs) @ 0x22 # rest)"
      using False by auto
    then have "parse_chars (quote_units (c # d # cs) @ 0x22 # rest) =
        map_option (\<lambda>p. (c # fst p, snd p)) (parse_chars (quote_units (d # cs) @ 0x22 # rest))"
      by (simp only: parse_chars_unit)
    then show ?thesis using 3(2) [OF False] by simp
  qed
qed

lemma parse_chars_quoted:
  "parse_chars (tl (QuoteJSONString s) @ rest) = Some (s, rest)"
  using parse_chars_units [of s rest] by (simp add: QuoteJSONString_def)

lemma skip_ws_stop:
  "list_all is_json_ws ws \<Longrightarrow> \<not> is_json_ws x \<Longrightarrow> skip_ws (ws @ x # xs) = x # xs"
  by (simp add: skip_ws_def list_all_iff dropWhile_append2)

lemma json_ws_facts:
  "\<not> is_json_ws 0x22" "\<not> is_json_ws 0x7B" "\<not> is_json_ws 0x7D" "\<not> is_json_ws 0x3A" "\<not> is_json_ws 0x2C"
  "is_json_ws 0x20" "is_json_ws 0x0A"
  by (simp_all add: is_json_ws_def)

lemma ascii_literals:
  "ascii '': '' = [0x3A, 0x20]" "ascii ''  '' = [0x20, 0x20]" "ascii ''{}'' = [0x7B, 0x7D]"
  by (simp_all add: ascii_def)

lemma put_property_new: "k \<notin> fst ` set acc \<Longrightarrow> put_property k v acc = acc @ [(k, v)]"
  by (induction acc) auto

text \<open>The members of an object, given the round trip of their values.\<close>

lemma parse_members_roundtrip:
  assumes vals: "\<And>kv n ws rest. kv \<in> set kvs \<Longrightarrow> list_all is_json_ws ws \<Longrightarrow>
      weight (snd kv) \<le> n \<Longrightarrow>
      parse_value n (ws @ SerializeJSONProperty ind' (snd kv) @ rest) = Some (snd kv, rest)"
    and "kvs \<noteq> []" and "distinct (map fst (acc @ kvs))"
    and "list_all is_json_ws ws0" and "list_all is_json_ws ind'" and "list_all is_json_ws ind"
    and "sum_list (map (\<lambda>kv. Suc (weight (snd kv))) kvs) \<le> m"
  shows "parse_members m acc
      (ws0 @ join ([0x2C, 0x0A] @ ind')
         (map (\<lambda>kv. QuoteJSONString (fst kv) @ ascii '': '' @ SerializeJSONProperty ind' (snd kv)) kvs) @
       [0x0A] @ ind @ 0x7D # rest) = Some (Node (acc @ kvs), rest)"
  using assms
proof (induction kvs arbitrary: acc ws0 m)
  case Nil
  then show ?case by simp
next
  case (Cons kv kvs)
  obtain k v where kv: "kv = (k, v)" by (cases kv)
  from Cons.prems(7) obtain m' where m': "m = Suc m'" "weight v \<le> m'"
    "sum_list (map (\<lambda>kv. Suc (weight (snd kv))) kvs) \<le> m'"
    using kv by (cases m) auto
  have knew: "k \<notin> fst ` set acc" using Cons.prems(3) kv by auto
  have pv: "parse_value m' ([0x20] @ SerializeJSONProperty ind' v @ tail) = Some (v, tail)" for tail
    using Cons.prems(1) [where kv = kv and n = m' and ws = "[0x20]" and rest = tail] kv m'(2) by (simp add: json_ws_facts)
  let ?member = "\<lambda>kv. QuoteJSONString (fst kv) @ ascii '': '' @ SerializeJSONProperty ind' (snd kv)"
  have head: "parse_members (Suc m') acc (ws0 @ ?member kv @ tail) =
      (case skip_ws tail of
         [] \<Rightarrow> None
       | c3 # r4 \<Rightarrow>
           if c3 = 0x2C then parse_members m' (acc @ [(k, v)]) r4
           else if c3 = 0x7D then Some (Node (acc @ [(k, v)]), r4)
           else None)" for tail
  proof -
    define Y where "Y = [0x20] @ SerializeJSONProperty ind' v @ tail"
    define X where "X = tl (QuoteJSONString k) @ 0x3A # Y"
    define s where "s = ws0 @ ?member kv @ tail"
    have "s = ws0 @ 0x22 # X"
      using kv by (simp add: s_def X_def Y_def QuoteJSONString_def ascii_literals)
    then have sk1: "skip_ws s = 0x22 # X"
      using Cons.prems(4) by (simp only: skip_ws_stop json_ws_facts not_False_eq_True)
    have pc: "parse_chars X = Some (k, 0x3A # Y)"
      unfolding X_def by (rule parse_chars_quoted)
    have sk2: "skip_ws (0x3A # Y) = 0x3A # Y"
      using skip_ws_stop [of "[]" "0x3A" Y] by (simp add: json_ws_facts)
    have pv': "parse_value m' Y = Some (v, tail)"
      unfolding Y_def by (rule pv)
    have "parse_members (Suc m') acc s =
      (case skip_ws tail of
         [] \<Rightarrow> None
       | c3 # r4 \<Rightarrow>
           if c3 = 0x2C then parse_members m' (acc @ [(k, v)]) r4
           else if c3 = 0x7D then Some (Node (acc @ [(k, v)]), r4)
           else None)"
      by (simp add: sk1 pc sk2 pv' put_property_new [OF knew] cong: list.case_cong if_cong)
    then show ?thesis by (simp only: s_def)
  qed
  show ?case
  proof (cases kvs)
    case Nil
    have "skip_ws ([0x0A] @ ind @ 0x7D # rest) = 0x7D # rest"
      using Cons.prems(6) skip_ws_stop [of "0x0A # ind" "0x7D" rest] by (simp add: json_ws_facts)
    then show ?thesis
      using head [of "[0x0A] @ ind @ 0x7D # rest"] Nil kv m'(1) by simp
  next
    case (Cons kv2 kvs2)
    let ?tail = "join ([0x2C, 0x0A] @ ind') (map ?member kvs) @ [0x0A] @ ind @ 0x7D # rest"
    have j: "join ([0x2C, 0x0A] @ ind') (map ?member (kv # kvs)) @ [0x0A] @ ind @ 0x7D # rest =
        ?member kv @ 0x2C # (0x0A # ind') @ ?tail"
      using Cons by simp
    have "parse_members m' (acc @ [(k, v)]) ((0x0A # ind') @ ?tail) = Some (Node ((acc @ [(k, v)]) @ kvs), rest)"
      using Cons.prems(1,3,5,6) m'(3) Cons kv
      by (intro Cons.IH) (simp_all add: json_ws_facts)
    then show ?thesis
      unfolding j using head [of "0x2C # (0x0A # ind') @ ?tail"] kv m'(1)
      by (simp add: skip_ws_stop [of "[]", simplified] json_ws_facts)
  qed
qed

lemma join_members_start:
  "kvs \<noteq> [] \<Longrightarrow>
   \<exists>J. join sep (map (\<lambda>kv. QuoteJSONString (fst kv) @ x kv) kvs) = 0x22 # J"
proof (cases kvs)
  case Nil
  then show "kvs \<noteq> [] \<Longrightarrow> ?thesis" by simp
next
  case (Cons kv kvs')
  then show ?thesis by (cases kvs') (simp_all add: QuoteJSONString_def)
qed

lemma json_ws_more:
  "\<not> is_json_ws 0x5B" "\<not> is_json_ws 0x5D" "\<not> is_json_ws 0x6E" "\<not> is_json_ws 0x74" "\<not> is_json_ws 0x66"
  by (simp_all add: is_json_ws_def)

text \<open>A serialized value begins with a character that is no white space and no bracket.\<close>

lemma serialize_start:
  "\<exists>c cs. SerializeJSONProperty ind v = c # cs \<and> \<not> is_json_ws c \<and> c \<noteq> 0x5D"
proof (cases v)
  case (Leaf s)
  then show ?thesis by (simp add: QuoteJSONString_def is_json_ws_def)
next
  case (Node kvs)
  then show ?thesis by (simp add: ascii_def is_json_ws_def)
next
  case (JArray vs)
  then show ?thesis by (simp add: ascii_def is_json_ws_def)
next
  case JNull
  then show ?thesis by (simp add: ascii_def is_json_ws_def)
next
  case (JBool b)
  then show ?thesis by (simp add: ascii_def is_json_ws_def)
qed

text \<open>The elements of an array, given the round trip of each.\<close>

lemma parse_elements_roundtrip:
  assumes vals: "\<And>v n ws rest. v \<in> set vs \<Longrightarrow> list_all is_json_ws ws \<Longrightarrow>
      weight v \<le> n \<Longrightarrow>
      parse_value n (ws @ SerializeJSONProperty ind' v @ rest) = Some (v, rest)"
    and "vs \<noteq> []"
    and "list_all is_json_ws ws0" and "list_all is_json_ws ind'" and "list_all is_json_ws ind"
    and "sum_list (map (\<lambda>v. Suc (weight v)) vs) \<le> m"
  shows "parse_elements m acc
      (ws0 @ join ([0x2C, 0x0A] @ ind') (map (SerializeJSONProperty ind') vs) @
       [0x0A] @ ind @ 0x5D # rest) = Some (JArray (acc @ vs), rest)"
  using assms
proof (induction vs arbitrary: acc ws0 m)
  case Nil
  then show ?case by simp
next
  case (Cons v vs)
  from Cons.prems(6) obtain m' where m': "m = Suc m'" "weight v \<le> m'"
    "sum_list (map (\<lambda>v. Suc (weight v)) vs) \<le> m'"
    by (cases m) auto
  have pv: "parse_value m' (ws0 @ SerializeJSONProperty ind' v @ tail) = Some (v, tail)" for tail
    using Cons.prems(1) [where v = v and n = m' and ws = ws0 and rest = tail] Cons.prems(3) m'(2)
    by simp
  have head: "parse_elements (Suc m') acc (ws0 @ SerializeJSONProperty ind' v @ tail) =
      (case skip_ws tail of
         [] \<Rightarrow> None
       | c # r2 \<Rightarrow>
           if c = 0x2C then parse_elements m' (acc @ [v]) r2
           else if c = 0x5D then Some (JArray (acc @ [v]), r2)
           else None)" for tail
    by (simp add: pv del: SerializeJSONProperty.simps)
  show ?case
  proof (cases vs)
    case Nil
    have "skip_ws ([0x0A] @ ind @ 0x5D # rest) = 0x5D # rest"
      using Cons.prems(5) skip_ws_stop [of "0x0A # ind" "0x5D" rest]
      by (simp add: json_ws_facts json_ws_more)
    then show ?thesis
      using head [of "[0x0A] @ ind @ 0x5D # rest"] Nil m'(1)
      by (simp del: SerializeJSONProperty.simps parse_elements.simps)
  next
    case (Cons v2 vs2)
    let ?tail = "join ([0x2C, 0x0A] @ ind') (map (SerializeJSONProperty ind') vs) @
        [0x0A] @ ind @ 0x5D # rest"
    have j: "join ([0x2C, 0x0A] @ ind') (map (SerializeJSONProperty ind') (v # vs)) @
        [0x0A] @ ind @ 0x5D # rest =
        SerializeJSONProperty ind' v @ 0x2C # (0x0A # ind') @ ?tail"
      using Cons by simp
    have "parse_elements m' (acc @ [v]) ((0x0A # ind') @ ?tail) = Some (JArray ((acc @ [v]) @ vs), rest)"
      using Cons.prems(1,4,5) m'(3) Cons
      by (intro Cons.IH) (simp_all add: json_ws_facts)
    then show ?thesis
      unfolding j using head [of "0x2C # (0x0A # ind') @ ?tail"] m'(1)
      by (simp add: skip_ws_stop [of "[]", simplified] json_ws_facts
          del: SerializeJSONProperty.simps parse_elements.simps)
  qed
qed

lemma parse_value_roundtrip:
  "wf_outline v \<Longrightarrow> list_all is_json_ws ws \<Longrightarrow> list_all is_json_ws ind \<Longrightarrow> weight v \<le> n \<Longrightarrow>
   parse_value n (ws @ SerializeJSONProperty ind v @ rest) = Some (v, rest)"
proof (induction v arbitrary: n ws ind rest)
  case (Leaf s)
  then obtain m where m: "n = Suc m" by (cases n) auto
  define X where "X = tl (QuoteJSONString s) @ rest"
  have "ws @ SerializeJSONProperty ind (Leaf s) @ rest = ws @ 0x22 # X"
    by (simp add: X_def QuoteJSONString_def)
  then have sk: "skip_ws (ws @ SerializeJSONProperty ind (Leaf s) @ rest) = 0x22 # X"
    using Leaf.prems(2) by (simp only: skip_ws_stop json_ws_facts not_False_eq_True)
  have pc: "parse_chars X = Some (s, rest)"
    unfolding X_def by (rule parse_chars_quoted)
  show ?case unfolding m by (simp add: sk pc del: SerializeJSONProperty.simps)
next
  case (Node kvs)
  from Node.prems(4) obtain m where m: "n = Suc m"
    "sum_list (map (\<lambda>kv. Suc (weight (snd kv))) kvs) \<le> m"
    by (cases n) auto
  show ?case
  proof (cases "kvs = []")
    case True
    have "ws @ SerializeJSONProperty ind (Node kvs) @ rest = ws @ 0x7B # (0x7D # rest)"
      using True by (simp add: ascii_literals)
    then have sk: "skip_ws (ws @ SerializeJSONProperty ind (Node kvs) @ rest) = 0x7B # (0x7D # rest)"
      using Node.prems(2) by (simp only: skip_ws_stop json_ws_facts not_False_eq_True)
    have sk2: "skip_ws (0x7D # rest) = 0x7D # rest"
      using skip_ws_stop [of "[]" "0x7D" rest] by (simp add: json_ws_facts)
    show ?thesis
      unfolding m by (simp add: sk sk2 del: SerializeJSONProperty.simps) (simp add: True)
  next
    case False
    define ind' where "ind' = ind @ ascii ''  ''"
    define member where
      "member = (\<lambda>kv. QuoteJSONString (fst kv) @ ascii '': '' @ SerializeJSONProperty ind' (snd kv))"
    define T where "T = join ([0x2C, 0x0A] @ ind') (map member kvs) @ [0x0A] @ ind @ 0x7D # rest"
    have wi: "list_all is_json_ws ind'"
      using Node.prems(3) by (simp add: ind'_def ascii_literals json_ws_facts)
    obtain J where J: "join ([0x2C, 0x0A] @ ind') (map member kvs) = 0x22 # J"
      using join_members_start [OF False, where sep = "[0x2C, 0x0A] @ ind'"
          and x = "\<lambda>kv. ascii '': '' @ SerializeJSONProperty ind' (snd kv)"]
      unfolding member_def by blast
    define Z where "Z = (0x0A # ind') @ T"
    define R where "R = J @ [0x0A] @ ind @ 0x7D # rest"
    have "ws @ SerializeJSONProperty ind (Node kvs) @ rest = ws @ 0x7B # Z"
      using False by (simp add: T_def Z_def member_def ind'_def)
    then have sk: "skip_ws (ws @ SerializeJSONProperty ind (Node kvs) @ rest) = 0x7B # Z"
      using Node.prems(2) by (simp only: skip_ws_stop json_ws_facts not_False_eq_True)
    have T': "T = 0x22 # R"
      unfolding T_def J R_def by simp
    have sk2: "skip_ws Z = 0x22 # R"
      unfolding Z_def T' using wi skip_ws_stop [of "0x0A # ind'" "0x22" R]
      by (simp add: json_ws_facts)
    have vals: "parse_value n' (ws' @ SerializeJSONProperty ind' (snd kv) @ rest') = Some (snd kv, rest')"
      if "kv \<in> set kvs" "list_all is_json_ws ws'" "weight (snd kv) \<le> n'" for kv n' ws' rest'
    proof -
      have "wf_outline (snd kv)" using Node.prems(1) that(1) by (simp add: list_all_iff)
      moreover have "snd kv \<in> Basic_BNFs.snds kv" by (cases kv) simp
      ultimately show ?thesis using that wi by (intro Node.IH) simp_all
    qed
    have "parse_members m [] ([] @ join ([0x2C, 0x0A] @ ind')
         (map (\<lambda>kv. QuoteJSONString (fst kv) @ ascii '': '' @ SerializeJSONProperty ind' (snd kv)) kvs) @
       [0x0A] @ ind @ 0x7D # rest) = Some (Node ([] @ kvs), rest)"
      using vals False Node.prems(1,3) wi m(2)
      by (intro parse_members_roundtrip) simp_all
    then have pm: "parse_members m [] T = Some (Node kvs, rest)"
      by (simp add: T_def member_def)
    have "parse_value (Suc m) (ws @ SerializeJSONProperty ind (Node kvs) @ rest) = parse_members m [] T"
      by (simp add: sk sk2 T' del: SerializeJSONProperty.simps)
    then show ?thesis unfolding m using pm by simp
  qed
next
  case (JArray vs)
  from JArray.prems(4) obtain m where m: "n = Suc m"
    "sum_list (map (\<lambda>v. Suc (weight v)) vs) \<le> m"
    by (cases n) auto
  show ?case
  proof (cases "vs = []")
    case True
    have "ws @ SerializeJSONProperty ind (JArray vs) @ rest = ws @ 0x5B # (0x5D # rest)"
      using True by (simp add: ascii_def)
    then have sk: "skip_ws (ws @ SerializeJSONProperty ind (JArray vs) @ rest) = 0x5B # (0x5D # rest)"
      using JArray.prems(2) skip_ws_stop [of ws "0x5B" "0x5D # rest"]
      by (simp add: json_ws_more)
    have sk2: "skip_ws (0x5D # rest) = 0x5D # rest"
      using skip_ws_stop [of "[]" "0x5D" rest] by (simp add: json_ws_more)
    show ?thesis
      unfolding m by (simp add: sk sk2 del: SerializeJSONProperty.simps) (simp add: True)
  next
    case False
    define ind' where "ind' = ind @ ascii ''  ''"
    define T where "T = join ([0x2C, 0x0A] @ ind') (map (SerializeJSONProperty ind') vs) @
        [0x0A] @ ind @ 0x5D # rest"
    have wi: "list_all is_json_ws ind'"
      using JArray.prems(3) by (simp add: ind'_def ascii_literals json_ws_facts)
    obtain v0 vs0 where vs: "vs = v0 # vs0" using False by (cases vs) auto
    obtain c cs where c: "SerializeJSONProperty ind' v0 = c # cs" "\<not> is_json_ws c" "c \<noteq> 0x5D"
      using serialize_start [of ind' v0] by blast
    obtain R where T': "T = c # R"
      unfolding T_def vs using c(1) by (cases vs0) simp_all
    define Z where "Z = (0x0A # ind') @ T"
    have "ws @ SerializeJSONProperty ind (JArray vs) @ rest = ws @ 0x5B # Z"
      using False by (simp add: T_def Z_def ind'_def)
    then have sk: "skip_ws (ws @ SerializeJSONProperty ind (JArray vs) @ rest) = 0x5B # Z"
      using JArray.prems(2) skip_ws_stop [of ws "0x5B" Z] by (simp add: json_ws_more)
    have sk2: "skip_ws Z = c # R"
      unfolding Z_def T' using wi c(2) skip_ws_stop [of "0x0A # ind'" c R]
      by (simp add: json_ws_facts)
    have vals: "parse_value n' (ws' @ SerializeJSONProperty ind' v @ rest') = Some (v, rest')"
      if "v \<in> set vs" "list_all is_json_ws ws'" "weight v \<le> n'" for v n' ws' rest'
    proof -
      have "wf_outline v" using JArray.prems(1) that(1) by (simp add: list_all_iff)
      then show ?thesis using that wi by (intro JArray.IH) simp_all
    qed
    have "parse_elements m [] ([] @ join ([0x2C, 0x0A] @ ind')
         (map (SerializeJSONProperty ind') vs) @ [0x0A] @ ind @ 0x5D # rest) =
         Some (JArray ([] @ vs), rest)"
      using vals False JArray.prems(3) wi m(2)
      by (intro parse_elements_roundtrip) simp_all
    then have pm: "parse_elements m [] (c # R) = Some (JArray vs, rest)"
      by (simp add: T_def T' [symmetric])
    have "parse_value (Suc m) (ws @ SerializeJSONProperty ind (JArray vs) @ rest) =
        parse_elements m [] (c # R)"
      using c(3) by (simp add: sk sk2 del: SerializeJSONProperty.simps parse_elements.simps)
    then show ?thesis unfolding m using pm by simp
  qed
next
  case JNull
  then obtain m where m: "n = Suc m" by (cases n) auto
  have "skip_ws (ws @ 0x6E # ([0x75, 0x6C, 0x6C] @ rest)) = 0x6E # ([0x75, 0x6C, 0x6C] @ rest)"
    using JNull.prems(2) by (intro skip_ws_stop) (simp_all add: json_ws_more)
  then show ?case unfolding m by (simp add: ascii_def)
next
  case (JBool b)
  then obtain m where m: "n = Suc m" by (cases n) auto
  have t: "skip_ws (ws @ 0x74 # ([0x72, 0x75, 0x65] @ rest)) = 0x74 # ([0x72, 0x75, 0x65] @ rest)"
    using JBool.prems(2) by (intro skip_ws_stop) (simp_all add: json_ws_more)
  have f: "skip_ws (ws @ 0x66 # ([0x61, 0x6C, 0x73, 0x65] @ rest)) =
      0x66 # ([0x61, 0x6C, 0x73, 0x65] @ rest)"
    using JBool.prems(2) by (intro skip_ws_stop) (simp_all add: json_ws_more)
  show ?case unfolding m using t f by (cases b) (simp_all add: ascii_def)
qed

lemma length_join: "sum_list (map length xs) \<le> length (join sep xs)"
  by (induction sep xs rule: join.induct) simp_all

lemma length_join_sep:
  "length (join sep xs) = sum_list (map length xs) + (length xs - 1) * length sep"
  by (induction sep xs rule: join.induct) simp_all

lemma weight_le_length: "weight v \<le> length (SerializeJSONProperty ind v)"
proof (induction v arbitrary: ind)
  case (Leaf s)
  then show ?case by (simp add: QuoteJSONString_def)
next
  case (Node kvs)
  show ?case
  proof (cases "kvs = []")
    case True
    then show ?thesis by (simp add: ascii_literals)
  next
    case False
    let ?member = "\<lambda>kv. QuoteJSONString (fst kv) @ ascii '': '' @
        SerializeJSONProperty (ind @ ascii ''  '') (snd kv)"
    have "Suc (weight (snd kv)) \<le> length (?member kv)" if "kv \<in> set kvs" for kv
    proof -
      have "snd kv \<in> Basic_BNFs.snds kv" by (cases kv) simp
      from Node.IH [OF that this, of "ind @ ascii ''  ''"] show ?thesis
        by (simp add: QuoteJSONString_def)
    qed
    then have "sum_list (map (\<lambda>kv. Suc (weight (snd kv))) kvs) \<le> sum_list (map (\<lambda>kv. length (?member kv)) kvs)"
      by (intro sum_list_mono) simp
    also have "\<dots> = sum_list (map length (map ?member kvs))"
      by (simp add: comp_def)
    also have "\<dots> \<le> length (join ([0x2C, 0x0A] @ (ind @ ascii ''  '')) (map ?member kvs))"
      by (rule length_join)
    finally show ?thesis using False by simp
  qed
next
  case (JArray vs)
  show ?case
  proof (cases "vs = []")
    case True
    then show ?thesis by (simp add: ascii_def)
  next
    case False
    define sep where "sep = [0x2C, 0x0A] @ (ind @ ascii ''  '')"
    define xs where "xs = map (SerializeJSONProperty (ind @ ascii ''  '')) vs"
    have "weight v \<le> length (SerializeJSONProperty (ind @ ascii ''  '') v)" if "v \<in> set vs" for v
      using JArray.IH [OF that] .
    then have "sum_list (map weight vs) \<le>
        sum_list (map (\<lambda>v. length (SerializeJSONProperty (ind @ ascii ''  '') v)) vs)"
      by (intro sum_list_mono) simp
    also have "\<dots> = sum_list (map length xs)"
      by (simp add: xs_def comp_def)
    finally have 1: "sum_list (map weight vs) \<le> sum_list (map length xs)" .
    have 2: "sum_list (map (\<lambda>v. Suc (weight v)) vs) = length vs + sum_list (map weight vs)"
      by (induction vs) simp_all
    have "2 \<le> length sep" by (simp add: sep_def)
    then have "(length vs - 1) * 2 \<le> (length vs - 1) * length sep"
      by (rule mult_le_mono2)
    moreover have "0 < length vs" using False by simp
    ultimately have 3: "length vs \<le> (length vs - 1) * length sep + 2" by linarith
    have 4: "length (join sep xs) = sum_list (map length xs) + (length vs - 1) * length sep"
      by (simp add: length_join_sep xs_def)
    have "length (SerializeJSONProperty ind (JArray vs)) = 6 + 2 * length ind + length (join sep xs)"
      using False by (simp add: sep_def xs_def ascii_def)
    then show ?thesis using 1 2 3 4 by simp
  qed
next
  case JNull
  then show ?case by (simp add: ascii_def)
next
  case (JBool b)
  then show ?case by (simp add: ascii_def)
qed

lemma JSON_parse_stringify: "wf_outline v \<Longrightarrow> JSON_parse (JSON_stringify v) = Some v"
proof -
  assume "wf_outline v"
  then have "parse_value (length (SerializeJSONProperty [] v)) ([] @ SerializeJSONProperty [] v @ []) =
      Some (v, [])"
    by (intro parse_value_roundtrip weight_le_length) simp_all
  then show ?thesis by (simp add: JSON_parse_def JSON_stringify_def skip_ws_def)
qed

lemma flatten_nth:
  "i < length structure \<Longrightarrow>
   flattenStructureToTasks now structure ! i = make_task (now i) i (structure ! i)"
  by (simp add: flattenStructureToTasks_def flatten_loop_eq)

text \<open>
  C8.  The outline fragment of the task made from an entry is the entry's value itself
  when that is a string.  When it is an object, the fragment is its serialization by
  \<open>JSON.stringify\<close> with an indent of two spaces, which the JSON parser reads back as
  the same object (an object has no two properties of one name), and which is a
  function of the object alone: the clock, which enters the identifiers, does not enter
  the fragment.
\<close>

theorem outline_fragment_roundtrip:
  assumes "i < length structure"
  shows "(\<forall>s. snd (structure ! i) = Leaf s \<longrightarrow>
            description (flattenStructureToTasks now structure ! i) = s) \<and>
         (\<forall>kvs. snd (structure ! i) = Node kvs \<and> wf_outline (Node kvs) \<longrightarrow>
            description (flattenStructureToTasks now structure ! i) = JSON_stringify (Node kvs) \<and>
            JSON_parse (description (flattenStructureToTasks now structure ! i)) = Some (Node kvs)) \<and>
         description (flattenStructureToTasks now structure ! i) =
           description (flattenStructureToTasks now' structure ! i)"
  using assms JSON_parse_stringify
  by (auto simp: flatten_nth make_task_def simp del: wf_outline.simps)

theorem outline_fragment_roundtrip_witness:
  "description (flattenStructureToTasks (\<lambda>_. 5)
     [(ascii ''Ch1'', Leaf (ascii ''desc1'')),
      (ascii ''Ch2'', Node [(ascii ''A'', Leaf (ascii ''a'')), (ascii ''B'', Leaf (ascii ''b''))])] ! 0) =
     ascii ''desc1'' \<and>
   description (flattenStructureToTasks (\<lambda>_. 5)
     [(ascii ''Ch1'', Leaf (ascii ''desc1'')),
      (ascii ''Ch2'', Node [(ascii ''A'', Leaf (ascii ''a'')), (ascii ''B'', Leaf (ascii ''b''))])] ! 1) =
     [0x7B, 0x0A] @ ascii ''  '' @ [0x22] @ ascii ''A'' @ [0x22] @ ascii '': '' @ [0x22] @ ascii ''a'' @ [0x22, 0x2C, 0x0A] @
     ascii ''  '' @ [0x22] @ ascii ''B'' @ [0x22] @ ascii '': '' @ [0x22] @ ascii ''b'' @ [0x22, 0x0A, 0x7D] \<and>
   JSON_parse (description (flattenStructureToTasks (\<lambda>_. 5)
     [(ascii ''Ch1'', Leaf (ascii ''desc1'')),
      (ascii ''Ch2'', Node [(ascii ''A'', Leaf (ascii ''a'')), (ascii ''B'', Leaf (ascii ''b''))])] ! 1)) =
     Some (Node [(ascii ''A'', Leaf (ascii ''a'')), (ascii ''B'', Leaf (ascii ''b''))])"
proof -
  let ?st = "[(ascii ''Ch1'', Leaf (ascii ''desc1'')),
      (ascii ''Ch2'', Node [(ascii ''A'', Leaf (ascii ''a'')), (ascii ''B'', Leaf (ascii ''b''))])]"
  let ?n = "Node [(ascii ''A'', Leaf (ascii ''a'')), (ascii ''B'', Leaf (ascii ''b''))]"
  have 0: "0 < length ?st" and 1: "1 < length ?st" by simp_all
  have a: "snd (?st ! 0) = Leaf (ascii ''desc1'')" by simp
  have b: "snd (?st ! 1) = ?n \<and> wf_outline ?n" by (simp add: ascii_def)
  have c: "JSON_stringify ?n =
     [0x7B, 0x0A] @ ascii ''  '' @ [0x22] @ ascii ''A'' @ [0x22] @ ascii '': '' @ [0x22] @ ascii ''a'' @ [0x22, 0x2C, 0x0A] @
     ascii ''  '' @ [0x22] @ ascii ''B'' @ [0x22] @ ascii '': '' @ [0x22] @ ascii ''b'' @ [0x22, 0x0A, 0x7D]"
    by code_simp
  from outline_fragment_roundtrip [OF 0, of "\<lambda>_. 5" "\<lambda>_. 5"] a
  have "description (flattenStructureToTasks (\<lambda>_. 5) ?st ! 0) = ascii ''desc1''"
    by blast
  moreover from outline_fragment_roundtrip [OF 1, of "\<lambda>_. 5" "\<lambda>_. 5"] b
  have "description (flattenStructureToTasks (\<lambda>_. 5) ?st ! 1) = JSON_stringify ?n \<and>
      JSON_parse (description (flattenStructureToTasks (\<lambda>_. 5) ?st ! 1)) = Some ?n"
    by blast
  ultimately show ?thesis unfolding c by blast
qed

section \<open>The scenario of the specification\<close>

lemma streaming_failure:
  assumes "streaming k tid acc w"
  shows "status (chapterTasks (rendered (step (Render now) (step (StreamFail e) w))) ! k) = Error \<and>
         content (chapterTasks (rendered (step (Render now) (step (StreamFail e) w))) ! k) = Some [] \<and>
         errorMessage (chapterTasks (rendered (step (Render now) (step (StreamFail e) w))) ! k) =
           Some (chapter_error_message e) \<and>
         \<not> isAutoGeneratingChapters (rendered (step (Render now) (step (StreamFail e) w)))"
proof -
  from assms obtain i where i: "running w = Some i" "inv_taskId i = tid"
    by (auto simp: streaming_def)
  define us where "us = [UpdaterError tid (chapter_error_message e),
      SetError (Some (ascii ''Error in chapter: '' @
        (case inv_title i of None \<Rightarrow> ascii ''Unknown''
         | Some t \<Rightarrow> if t = [] then ascii ''Unknown'' else t) @
        ascii ''. '' @ chapter_error_message e)),
      SetIsAutoGeneratingChapters False, SetActivelyGeneratingChapterId None]"
  have w': "step (StreamFail e) w =
      w\<lparr> queue := queue w @ us, generatingChapterContentRef := [], running := None \<rparr>"
    using i by (simp add: on_failure_def Let_def us_def)
  have g: "generating_at k tid (flush [] (queue w) (rendered w))"
    using assms by (simp add: streaming_def)
  have "rendered (step (Render now) (step (StreamFail e) w)) = flush [] (queue w @ us) (rendered w)"
    unfolding w' by (simp add: render_def us_def)
  then show ?thesis
    using g by (simp add: flush_snoc flush_Cons generating_at_def nth_map_task us_def trim_def)
qed

text \<open>
  The outline \<open>{"Ch1": "desc1", "Ch2": {"A": "a", "B": "b"}}\<close>; the stream of the
  first chapter delivers \<open>Hello \<close> and \<open>world\<close>, the one of the second fails at once.
\<close>

lemma specification_scenario:
  "map (\<lambda>t. (title t, status t, content t))
     (chapterTasks (rendered (run
        [Proceed (\<lambda>_. 17), Render (\<lambda>_. 18), StartAutomatic, Render (\<lambda>_. 19),
         Chunk (Some (ascii ''Hello '')), Render (\<lambda>_. 19), Chunk (Some (ascii ''world'')),
         StreamEnd, Render (\<lambda>_. 19), StreamFail OtherThrown, Render (\<lambda>_. 19)]
        \<lparr> rendered =
            \<lparr> currentStep = OUTLINE_REVIEW, userInputs = Some (), bookTitle = Some (ascii ''T''),
              bookStructure = Some (Node
                [(ascii ''Ch1'', Leaf (ascii ''desc1'')),
                 (ascii ''Ch2'', Node [(ascii ''A'', Leaf (ascii ''a'')), (ascii ''B'', Leaf (ascii ''b''))])]),
              chapterTasks = [], error = None, isLoading = False,
              isAutoGeneratingChapters = False, activelyGeneratingChapterId = None,
              apiKeyMissing = False \<rparr>,
          queue = [], generatingChapterContentRef = [], running = None \<rparr>))) =
     [(ascii ''Ch1'', Done, Some (ascii ''Hello world'')), (ascii ''Ch2'', Error, Some [])]"
  by code_simp

end
